theory Spec2Isabelle
  imports Main "HOL-Library.Word" "HOL-Library.Multiset"
begin

section \<open>The DocumentStorage contract (src/solidity/document\_issue.sol)\<close>

text \<open>
  The contract is embedded as state-passing functions over a record of its storage.
  A call either reverts (\<open>Inl\<close> with the error kind; the ledger then discards every
  write and every event of the call) or commits (\<open>Inr\<close> with the new state).
  \<open>msg.sender\<close> and \<open>tx.origin\<close> are explicit arguments.
\<close>

subsection \<open>Data\<close>

type_synonym address = "160 word"
type_synonym uint256 = "256 word"
type_synonym bytes32 = "256 word"

text \<open>\<open>struct Document { bytes32 sha256Hash; string ipfsCID; }\<close>\<close>

record Document =
  sha256Hash :: bytes32
  ipfsCID :: string

datatype event =
    DocumentStored uint256 bytes32 string
  | DocumentRevoked uint256 bytes32 string
  | IssuerAdded address
  | IssuerRemoved address
  | RevokerAdded address
  | RevokerRemoved address

text \<open>
  The error kinds, named as in the specification. The revert strings of the source are:
  \<open>NotOwner\<close> = 'Not an owner', \<open>AlreadyAuthorized\<close> = 'User already authorized',
  \<open>NotAuthorized\<close> = 'User is not authorized', \<open>Unauthorized\<close> = 'Not authorized to
  store' / 'Not authorized to revoke', \<open>DuplicateDocument\<close> = 'Document already stored',
  \<open>IndirectInitializationRejected\<close> = 'Only the deployer can initialize'.
  \<open>ReentrancyError\<close> and \<open>AlreadyInitialized\<close> are raised by the imported modifiers.
  \<open>Panic\<close> is the revert of Solidity 0.8 checked arithmetic and of an array access
  out of bounds.
\<close>

datatype error =
    NotOwner
  | AlreadyAuthorized
  | NotAuthorized
  | Unauthorized
  | DuplicateDocument
  | ReentrancyError
  | AlreadyInitialized
  | IndirectInitializationRejected
  | Panic

text \<open>
  The storage of the contract. \<open>owners\<close> is the fixed array \<open>address[3]\<close>; the two
  index mappings are total with default 0, as a Solidity mapping is; a \<open>uint256\<close> index
  is a natural number, and the places where checked arithmetic can revert are written
  out. \<open>userDocuments\<close> is the mapping \<open>_userDocuments\<close>. \<open>initialized\<close> and \<open>busy\<close>
  are the flags of the two imported modifiers, and \<open>events\<close> is the log of emitted events.
\<close>

record state =
  initialized :: bool
  busy :: bool
  owners :: "address \<times> address \<times> address"
  issuerIndex :: "address \<Rightarrow> nat"
  issuerList :: "address list"
  revokerIndex :: "address \<Rightarrow> nat"
  revokerList :: "address list"
  userDocuments :: "uint256 \<Rightarrow> Document list"
  events :: "event list"

definition init_state :: state where
  "init_state = \<lparr> initialized = False, busy = False, owners = (0, 0, 0),
     issuerIndex = (\<lambda>_. 0), issuerList = [],
     revokerIndex = (\<lambda>_. 0), revokerList = [],
     userDocuments = (\<lambda>_. []), events = [] \<rparr>"

definition max_uint256 :: nat where
  "max_uint256 = 2 ^ 256 - 1"

subsection \<open>Modifiers\<close>

text \<open>The test of \<open>modifier onlyOwners\<close>, also written inline in the two document operations.\<close>

definition isOwner :: "state \<Rightarrow> address \<Rightarrow> bool" where
  "isOwner s sender =
     (case owners s of (o0, o1, o2) \<Rightarrow> sender = o0 \<or> sender = o1 \<or> sender = o2)"

definition onlyOwners :: "address \<Rightarrow> (state \<Rightarrow> error + state) \<Rightarrow> state \<Rightarrow> error + state" where
  "onlyOwners sender body s = (if isOwner s sender then body s else Inl NotOwner)"

text \<open>The inline tests \<open>issuerIndex[msg.sender] > 0\<close> and \<open>revokerIndex[msg.sender] > 0\<close>.\<close>

definition isIssuer :: "state \<Rightarrow> address \<Rightarrow> bool" where
  "isIssuer s a = (issuerIndex s a > 0)"

definition isRevoker :: "state \<Rightarrow> address \<Rightarrow> bool" where
  "isRevoker s a = (revokerIndex s a > 0)"

text \<open>
  Modelled from the spec: the \<open>initializer\<close> modifier of the imported Initializable
  contract, which is not part of the sources. The specification says of \<open>initialize\<close>:
  one-time setup, ``fails with AlreadyInitialized if called a second time''.
\<close>

definition initializer :: "(state \<Rightarrow> error + state) \<Rightarrow> state \<Rightarrow> error + state" where
  "initializer body s =
     (if initialized s then Inl AlreadyInitialized else body (s\<lparr>initialized := True\<rparr>))"

text \<open>
  Modelled from the spec: the \<open>nonReentrant\<close> modifier of the imported ReentrancyGuard
  contract, which is not part of the sources. The specification says: ``the guard is a
  single global busy flag set on entry and cleared on exit (including on failure),
  rejecting any reentrant call with ReentrancyError''. On failure the whole call is
  reverted, which restores the flag together with everything else.
\<close>

definition nonReentrant :: "(state \<Rightarrow> error + state) \<Rightarrow> state \<Rightarrow> error + state" where
  "nonReentrant body s =
     (if busy s then Inl ReentrancyError
      else (case body (s\<lparr>busy := True\<rparr>) of
              Inl e \<Rightarrow> Inl e
            | Inr s' \<Rightarrow> Inr (s'\<lparr>busy := False\<rparr>)))"

subsection \<open>Governance\<close>

text \<open>\<open>__UUPSUpgradeable_init()\<close> has an empty body and is left out.\<close>

definition initialize_body :: "address \<Rightarrow> address \<Rightarrow> address \<Rightarrow> address \<Rightarrow> state \<Rightarrow> error + state" where
  "initialize_body sender origin owner2 owner3 s =
     (if sender \<noteq> origin then Inl IndirectInitializationRejected
      else Inr (s\<lparr>owners := (sender, owner2, owner3)\<rparr>))"

definition initialize :: "address \<Rightarrow> address \<Rightarrow> address \<Rightarrow> address \<Rightarrow> state \<Rightarrow> error + state" where
  "initialize sender origin owner2 owner3 =
     initializer (initialize_body sender origin owner2 owner3)"

definition authorizeUpgrade :: "address \<Rightarrow> address \<Rightarrow> state \<Rightarrow> error + state" where
  "authorizeUpgrade sender newImplementation = onlyOwners sender Inr"

subsection \<open>Authorization lists\<close>

definition addAuthorizedIssuer :: "address \<Rightarrow> address \<Rightarrow> state \<Rightarrow> error + state" where
  "addAuthorizedIssuer sender issuer =
     onlyOwners sender (\<lambda>s.
       if \<not> (issuerIndex s issuer = 0 \<and>
              (length (issuerList s) = 0 \<or> issuerList s ! 0 \<noteq> issuer))
       then Inl AlreadyAuthorized
       else if length (issuerList s) + 1 > max_uint256 then Inl Panic
       else Inr (s\<lparr> issuerIndex := (issuerIndex s)(issuer := length (issuerList s) + 1),
                    issuerList := issuerList s @ [issuer],
                    events := events s @ [IssuerAdded issuer] \<rparr>))"

definition removeAuthorizedIssuer :: "address \<Rightarrow> address \<Rightarrow> state \<Rightarrow> error + state" where
  "removeAuthorizedIssuer sender issuer =
     onlyOwners sender (\<lambda>s.
       if \<not> issuerIndex s issuer > 0 then Inl NotAuthorized
       else
         let index = issuerIndex s issuer - 1 in
         if length (issuerList s) = 0 then Inl Panic
         else
           let lastIndex = length (issuerList s) - 1 in
           if index \<noteq> lastIndex then
             if \<not> index < length (issuerList s) then Inl Panic
             else
               let list1 = (issuerList s)[index := issuerList s ! lastIndex];
                   index1 = (issuerIndex s)(list1 ! index := index + 1)
               in Inr (s\<lparr> issuerIndex := index1(issuer := 0),
                            issuerList := butlast list1,
                            events := events s @ [IssuerRemoved issuer] \<rparr>)
           else Inr (s\<lparr> issuerIndex := (issuerIndex s)(issuer := 0),
                        issuerList := butlast (issuerList s),
                        events := events s @ [IssuerRemoved issuer] \<rparr>))"

definition addAuthorizedRevoker :: "address \<Rightarrow> address \<Rightarrow> state \<Rightarrow> error + state" where
  "addAuthorizedRevoker sender revoker =
     onlyOwners sender (\<lambda>s.
       if \<not> (revokerIndex s revoker = 0 \<and>
              (length (revokerList s) = 0 \<or> revokerList s ! 0 \<noteq> revoker))
       then Inl AlreadyAuthorized
       else if length (revokerList s) + 1 > max_uint256 then Inl Panic
       else Inr (s\<lparr> revokerIndex := (revokerIndex s)(revoker := length (revokerList s) + 1),
                    revokerList := revokerList s @ [revoker],
                    events := events s @ [RevokerAdded revoker] \<rparr>))"

definition removeAuthorizedRevoker :: "address \<Rightarrow> address \<Rightarrow> state \<Rightarrow> error + state" where
  "removeAuthorizedRevoker sender revoker =
     onlyOwners sender (\<lambda>s.
       if \<not> revokerIndex s revoker > 0 then Inl NotAuthorized
       else
         let index = revokerIndex s revoker - 1 in
         if length (revokerList s) = 0 then Inl Panic
         else
           let lastIndex = length (revokerList s) - 1 in
           if index \<noteq> lastIndex then
             if \<not> index < length (revokerList s) then Inl Panic
             else
               let list1 = (revokerList s)[index := revokerList s ! lastIndex];
                   index1 = (revokerIndex s)(list1 ! index := index + 1)
               in Inr (s\<lparr> revokerIndex := index1(revoker := 0),
                            revokerList := butlast list1,
                            events := events s @ [RevokerRemoved revoker] \<rparr>)
           else Inr (s\<lparr> revokerIndex := (revokerIndex s)(revoker := 0),
                        revokerList := butlast (revokerList s),
                        events := events s @ [RevokerRemoved revoker] \<rparr>))"

definition getAllAuthorizedIssuers :: "state \<Rightarrow> address list" where
  "getAllAuthorizedIssuers s = issuerList s"

definition getAllAuthorizedRevokers :: "state \<Rightarrow> address list" where
  "getAllAuthorizedRevokers s = revokerList s"

subsection \<open>Document store\<close>

text \<open>
  The duplicate scan of \<open>storeDocument\<close>: the loop over \<open>i\<close> with its \<open>require\<close>.
  The result is \<open>True\<close> when every \<open>require\<close> passed.
\<close>

function storeDocument_loop :: "nat \<Rightarrow> Document list \<Rightarrow> bytes32 \<Rightarrow> bool" where
  "storeDocument_loop i docs h =
     (if i < length docs
      then (if sha256Hash (docs ! i) \<noteq> h then storeDocument_loop (Suc i) docs h else False)
      else True)"
  by pat_completeness auto
termination
  by (relation "measure (\<lambda>(i, docs, h). length docs - i)") auto

definition storeDocument_body :: "address \<Rightarrow> uint256 \<Rightarrow> bytes32 \<Rightarrow> string \<Rightarrow> state \<Rightarrow> error + state" where
  "storeDocument_body sender userId h cid s =
     (if \<not> (isIssuer s sender \<or> isOwner s sender) then Inl Unauthorized
      else if \<not> storeDocument_loop 0 (userDocuments s userId) h then Inl DuplicateDocument
      else Inr (s\<lparr> userDocuments := (userDocuments s)
                      (userId := userDocuments s userId @ [\<lparr>sha256Hash = h, ipfsCID = cid\<rparr>]),
                   events := events s @ [DocumentStored userId h cid] \<rparr>))"

definition storeDocument :: "address \<Rightarrow> uint256 \<Rightarrow> bytes32 \<Rightarrow> string \<Rightarrow> state \<Rightarrow> error + state" where
  "storeDocument sender userId h cid = nonReentrant (storeDocument_body sender userId h cid)"

text \<open>
  The loop of \<open>revokeDocument\<close>: at the first index whose hash matches it emits the event,
  overwrites the slot with the last record, pops and breaks. It returns the collection
  and the event log.
\<close>

function revokeDocument_loop ::
  "nat \<Rightarrow> uint256 \<Rightarrow> bytes32 \<Rightarrow> Document list \<Rightarrow> event list \<Rightarrow> Document list \<times> event list" where
  "revokeDocument_loop i userId h docs ev =
     (if i < length docs
      then (if sha256Hash (docs ! i) = h
            then (butlast (docs[i := docs ! (length docs - 1)]),
                  ev @ [DocumentRevoked userId (sha256Hash (docs ! i)) (ipfsCID (docs ! i))])
            else revokeDocument_loop (Suc i) userId h docs ev)
      else (docs, ev))"
  by pat_completeness auto
termination
  by (relation "measure (\<lambda>(i, userId, h, docs, ev). length docs - i)") auto

definition revokeDocument_body :: "address \<Rightarrow> uint256 \<Rightarrow> bytes32 \<Rightarrow> state \<Rightarrow> error + state" where
  "revokeDocument_body sender userId h s =
     (if \<not> (isRevoker s sender \<or> isOwner s sender) then Inl Unauthorized
      else (case revokeDocument_loop 0 userId h (userDocuments s userId) (events s) of
              (docs', ev') \<Rightarrow>
                Inr (s\<lparr> userDocuments := (userDocuments s)(userId := docs'),
                        events := ev' \<rparr>)))"

definition revokeDocument :: "address \<Rightarrow> uint256 \<Rightarrow> bytes32 \<Rightarrow> state \<Rightarrow> error + state" where
  "revokeDocument sender userId h = nonReentrant (revokeDocument_body sender userId h)"

definition getDocuments :: "state \<Rightarrow> uint256 \<Rightarrow> bytes32 list \<times> string list" where
  "getDocuments s userId =
     (map sha256Hash (userDocuments s userId), map ipfsCID (userDocuments s userId))"

definition getDocumentCount :: "state \<Rightarrow> uint256 \<Rightarrow> nat" where
  "getDocumentCount s userId = length (userDocuments s userId)"

subsection \<open>Transactions and reachable states\<close>

datatype call =
    Initialize address address address address
  | AuthorizeUpgrade address address
  | AddAuthorizedIssuer address address
  | RemoveAuthorizedIssuer address address
  | AddAuthorizedRevoker address address
  | RemoveAuthorizedRevoker address address
  | StoreDocument address uint256 bytes32 string
  | RevokeDocument address uint256 bytes32

fun exec :: "call \<Rightarrow> state \<Rightarrow> error + state" where
  "exec (Initialize sender origin owner2 owner3) = initialize sender origin owner2 owner3"
| "exec (AuthorizeUpgrade sender impl) = authorizeUpgrade sender impl"
| "exec (AddAuthorizedIssuer sender a) = addAuthorizedIssuer sender a"
| "exec (RemoveAuthorizedIssuer sender a) = removeAuthorizedIssuer sender a"
| "exec (AddAuthorizedRevoker sender a) = addAuthorizedRevoker sender a"
| "exec (RemoveAuthorizedRevoker sender a) = removeAuthorizedRevoker sender a"
| "exec (StoreDocument sender userId h cid) = storeDocument sender userId h cid"
| "exec (RevokeDocument sender userId h) = revokeDocument sender userId h"

text \<open>A transaction: a reverted call leaves the state as it was.\<close>

definition transact :: "call \<Rightarrow> state \<Rightarrow> state" where
  "transact c s = (case exec c s of Inl e \<Rightarrow> s | Inr s' \<Rightarrow> s')"

text \<open>The reachable states are \<open>run cs init_state\<close> for the sequences \<open>cs\<close> of calls.\<close>

fun run :: "call list \<Rightarrow> state \<Rightarrow> state" where
  "run [] s = s"
| "run (c # cs) s = run cs (transact c s)"

subsection \<open>Invariants\<close>

text \<open>No two records of one subject's collection share a hash.\<close>

definition docs_unique :: "state \<Rightarrow> bool" where
  "docs_unique s \<longleftrightarrow> (\<forall>u. distinct (map sha256Hash (userDocuments s u)))"

text \<open>
  An index mapping and its list agree: a nonzero entry names, in 1-based form, a slot of
  the list that holds the address, and every slot's address has that slot's entry.
\<close>

definition auth_consistent :: "(address \<Rightarrow> nat) \<Rightarrow> address list \<Rightarrow> bool" where
  "auth_consistent idx lst \<longleftrightarrow>
     (\<forall>a. idx a \<noteq> 0 \<longrightarrow> idx a \<le> length lst \<and> lst ! (idx a - 1) = a) \<and>
     (\<forall>i<length lst. idx (lst ! i) = Suc i)"

definition state_inv :: "state \<Rightarrow> bool" where
  "state_inv s \<longleftrightarrow>
     docs_unique s \<and>
     auth_consistent (issuerIndex s) (issuerList s) \<and>
     auth_consistent (revokerIndex s) (revokerList s) \<and>
     \<not> busy s"

text \<open>
  The index mapping and the list that a removal of \<open>a\<close> leaves, in the two cases of the
  source (\<open>index != lastIndex\<close> or not), as functions of the structures before.
\<close>

definition removed_index :: "(address \<Rightarrow> nat) \<Rightarrow> address list \<Rightarrow> address \<Rightarrow> address \<Rightarrow> nat" where
  "removed_index idx lst a =
     (if idx a - 1 \<noteq> length lst - 1
      then (idx((lst[idx a - 1 := lst ! (length lst - 1)]) ! (idx a - 1) := idx a - 1 + 1))(a := 0)
      else idx(a := 0))"

definition removed_list :: "(address \<Rightarrow> nat) \<Rightarrow> address list \<Rightarrow> address \<Rightarrow> address list" where
  "removed_list idx lst a =
     (if idx a - 1 \<noteq> length lst - 1
      then butlast (lst[idx a - 1 := lst ! (length lst - 1)])
      else butlast lst)"

subsection \<open>Predicates of the claims\<close>

text \<open>
  What a document operation on subject \<open>u\<close>, an issuer operation and a revoker operation
  must leave unchanged.
\<close>

definition docs_frame :: "uint256 \<Rightarrow> state \<Rightarrow> state \<Rightarrow> bool" where
  "docs_frame u s s' \<longleftrightarrow>
     initialized s' = initialized s \<and> busy s' = busy s \<and> owners s' = owners s \<and>
     issuerIndex s' = issuerIndex s \<and> issuerList s' = issuerList s \<and>
     revokerIndex s' = revokerIndex s \<and> revokerList s' = revokerList s \<and>
     (\<forall>u'. u' \<noteq> u \<longrightarrow> userDocuments s' u' = userDocuments s u')"

definition issuers_frame :: "state \<Rightarrow> state \<Rightarrow> bool" where
  "issuers_frame s s' \<longleftrightarrow>
     initialized s' = initialized s \<and> busy s' = busy s \<and> owners s' = owners s \<and>
     revokerIndex s' = revokerIndex s \<and> revokerList s' = revokerList s \<and>
     userDocuments s' = userDocuments s"

definition revokers_frame :: "state \<Rightarrow> state \<Rightarrow> bool" where
  "revokers_frame s s' \<longleftrightarrow>
     initialized s' = initialized s \<and> busy s' = busy s \<and> owners s' = owners s \<and>
     issuerIndex s' = issuerIndex s \<and> issuerList s' = issuerList s \<and>
     userDocuments s' = userDocuments s"

text \<open>The three slots of the owner array, as a list.\<close>

definition owner_list :: "state \<Rightarrow> address list" where
  "owner_list s = (case owners s of (o0, o1, o2) \<Rightarrow> [o0, o1, o2])"

text \<open>
  The swap-remove as the specification words it: if \<open>addr\<close> is not the last element, the
  last element is moved into \<open>addr\<close>'s former slot and its index entry updated to that
  slot; then the list is shortened by one and \<open>addr\<close>'s index entry deleted.
\<close>

definition spec_swap_remove ::
  "(address \<Rightarrow> nat) \<Rightarrow> address list \<Rightarrow> address \<Rightarrow> (address \<Rightarrow> nat) \<Rightarrow> address list \<Rightarrow> bool" where
  "spec_swap_remove idx lst addr idx' lst' \<longleftrightarrow>
     (let i = idx addr - 1; lastIndex = length lst - 1 in
        i < length lst \<and> lst ! i = addr \<and>
        lst' = butlast (if i \<noteq> lastIndex then lst[i := lst ! lastIndex] else lst) \<and>
        idx' = (if i \<noteq> lastIndex then idx(lst ! lastIndex := i + 1, addr := 0)
                else idx(addr := 0)))"

text \<open>
  Modelled from the spec: a call that calls back into the contract in the course of its
  execution (the ``callback-style external interaction mid-execution'' of the
  specification, through which a call can be re-entered before it completes). The bodies
  in the source make no external call, so the part of a body that ran before the callback
  and the nested call are parameters: \<open>then_call pre nested\<close> runs \<open>pre\<close> and then, in
  the state \<open>pre\<close> left, the nested call; an error of either aborts the whole call.
\<close>

definition then_call :: "(state \<Rightarrow> error + state) \<Rightarrow> (state \<Rightarrow> error + state) \<Rightarrow> state \<Rightarrow> error + state" where
  "then_call pre nested s = (case pre s of Inl e \<Rightarrow> Inl e | Inr t \<Rightarrow> nested t)"

text \<open>A piece of a body that does not write the busy flag.\<close>

definition keeps_busy :: "(state \<Rightarrow> error + state) \<Rightarrow> bool" where
  "keeps_busy pre \<longleftrightarrow> (\<forall>t t'. pre t = Inr t' \<longrightarrow> busy t' = busy t)"

subsection \<open>A scenario\<close>

text \<open>
  The scenario of the specification: owners 1, 2 and 3; owner 1 adds the issuer 10 and owner 2
  the revoker 20; the issuer stores hash 7 with reference \<open>cidA\<close> for subject 42; the
  revoker revokes it.
\<close>

definition state_A :: state where
  "state_A = run [Initialize 1 1 2 3, AddAuthorizedIssuer 1 10, AddAuthorizedRevoker 2 20] init_state"

definition state_B :: state where
  "state_B = transact (StoreDocument 10 42 7 ''cidA'') state_A"

definition state_C :: state where
  "state_C = transact (RevokeDocument 20 42 7) state_B"

text \<open>Three issuers added in order, and two revokers, all by owner 1.\<close>

definition state_D :: state where
  "state_D = run [Initialize 1 1 2 3, AddAuthorizedIssuer 1 10, AddAuthorizedIssuer 1 11,
     AddAuthorizedIssuer 1 12, AddAuthorizedRevoker 1 20, AddAuthorizedRevoker 1 21] init_state"

section \<open>Lemmas about the loops and the swap-remove\<close>

declare storeDocument_loop.simps [simp del]
declare revokeDocument_loop.simps [simp del]

lemma swap_remove_mset:
  assumes "i < length xs"
  shows "mset (butlast (xs[i := xs ! (length xs - 1)])) = mset xs - {#xs ! i#}"
proof (cases xs rule: rev_cases)
  case Nil
  with assms show ?thesis by simp
next
  case (snoc ys z)
  show ?thesis
  proof (cases "i = length ys")
    case True
    with snoc show ?thesis by simp
  next
    case False
    with assms snoc have lt: "i < length ys" by simp
    then have "ys ! i \<in># mset ys" by simp
    with lt snoc show ?thesis
      by (simp add: list_update_append nth_append mset_update)
  qed
qed

lemma swap_remove_map:
  "i < length xs \<Longrightarrow> map f (butlast (xs[i := xs ! (length xs - 1)])) =
     butlast ((map f xs)[i := map f xs ! (length (map f xs) - 1)])"
  by (simp add: map_butlast map_update)

lemma swap_remove_distinct:
  assumes "distinct xs" "i < length xs"
  shows "distinct (butlast (xs[i := xs ! (length xs - 1)])) \<and>
         set (butlast (xs[i := xs ! (length xs - 1)])) = set xs - {xs ! i}"
proof -
  let ?ys = "butlast (xs[i := xs ! (length xs - 1)])"
  have m: "mset ?ys = mset xs - {#xs ! i#}" using assms(2) by (rule swap_remove_mset)
  have c: "count (mset ?ys) x = count (mset xs) x - (if x = xs ! i then 1 else 0)" for x
    unfolding m by simp
  have cx: "count (mset xs) x = (if x \<in> set xs then 1 else 0)" for x
    using assms(1) [unfolded distinct_count_atmost_1] by (rule spec)
  have mem: "x \<in> set ?ys \<longleftrightarrow> x \<in> set xs \<and> x \<noteq> xs ! i" for x
  proof -
    have "x \<in> set ?ys \<longleftrightarrow> x \<in># mset ?ys" by simp
    also have "\<dots> \<longleftrightarrow> 0 < count (mset ?ys) x" by (rule count_greater_zero_iff [symmetric])
    also have "\<dots> \<longleftrightarrow> x \<in> set xs \<and> x \<noteq> xs ! i" by (simp only: c cx) simp
    finally show ?thesis .
  qed
  have "count (mset ?ys) x = (if x \<in> set ?ys then 1 else 0)" for x
  proof (cases "x \<in> set xs \<and> x \<noteq> xs ! i")
    case True
    with mem [of x] have "x \<in> set ?ys" by blast
    moreover from True have "count (mset ?ys) x = 1" using c [of x] cx [of x] by simp
    ultimately show ?thesis by simp
  next
    case False
    with mem [of x] have "x \<notin> set ?ys" by blast
    moreover from False have "count (mset ?ys) x = 0" using c [of x] cx [of x] by auto
    ultimately show ?thesis by simp
  qed
  then have "distinct ?ys" unfolding distinct_count_atmost_1 by (rule allI)
  moreover from mem have "set ?ys = set xs - {xs ! i}" by blast
  ultimately show ?thesis by simp
qed

lemma storeDocument_loop_iff:
  "storeDocument_loop i docs h \<longleftrightarrow> (\<forall>j. i \<le> j \<and> j < length docs \<longrightarrow> sha256Hash (docs ! j) \<noteq> h)"
proof (induction i docs h rule: storeDocument_loop.induct)
  case (1 i docs h)
  show ?case
  proof (cases "i < length docs")
    case False
    then show ?thesis by (subst storeDocument_loop.simps) auto
  next
    case True
    show ?thesis
    proof (cases "sha256Hash (docs ! i) = h")
      case True
      with \<open>i < length docs\<close> show ?thesis
        by (subst storeDocument_loop.simps) auto
    next
      case False
      have "(\<forall>j. i \<le> j \<and> j < length docs \<longrightarrow> sha256Hash (docs ! j) \<noteq> h) \<longleftrightarrow>
            (\<forall>j. Suc i \<le> j \<and> j < length docs \<longrightarrow> sha256Hash (docs ! j) \<noteq> h)"
      proof (intro iffI allI impI)
        fix j
        assume "\<forall>j. i \<le> j \<and> j < length docs \<longrightarrow> sha256Hash (docs ! j) \<noteq> h"
          and "Suc i \<le> j \<and> j < length docs"
        then show "sha256Hash (docs ! j) \<noteq> h" by simp
      next
        fix j
        assume a: "\<forall>j. Suc i \<le> j \<and> j < length docs \<longrightarrow> sha256Hash (docs ! j) \<noteq> h"
          and b: "i \<le> j \<and> j < length docs"
        show "sha256Hash (docs ! j) \<noteq> h"
        proof (cases "j = i")
          case True
          with False show ?thesis by simp
        next
          case False
          with b have "Suc i \<le> j \<and> j < length docs" by simp
          with a show ?thesis by blast
        qed
      qed
      moreover have "storeDocument_loop i docs h = storeDocument_loop (Suc i) docs h"
        using True False by (subst storeDocument_loop.simps) simp
      ultimately show ?thesis using "1.IH" True False by simp
    qed
  qed
qed

lemma storeDocument_loop_0:
  "storeDocument_loop 0 docs h \<longleftrightarrow> h \<notin> set (map sha256Hash docs)"
proof
  assume "storeDocument_loop 0 docs h"
  then have "\<forall>j<length docs. sha256Hash (docs ! j) \<noteq> h" by (simp add: storeDocument_loop_iff)
  then show "h \<notin> set (map sha256Hash docs)" by (auto simp: in_set_conv_nth)
next
  assume "h \<notin> set (map sha256Hash docs)"
  then have "sha256Hash (docs ! j) \<noteq> h" if "j < length docs" for j
    using that nth_mem [of j docs] by auto
  then show "storeDocument_loop 0 docs h" by (simp add: storeDocument_loop_iff)
qed

lemma revokeDocument_loop_miss:
  "(\<forall>j. i \<le> j \<and> j < length docs \<longrightarrow> sha256Hash (docs ! j) \<noteq> h) \<Longrightarrow>
     revokeDocument_loop i u h docs ev = (docs, ev)"
proof (induction i u h docs ev rule: revokeDocument_loop.induct)
  case (1 i u h docs ev)
  show ?case
  proof (cases "i < length docs")
    case False
    then show ?thesis by (subst revokeDocument_loop.simps) simp
  next
    case True
    with "1.prems" have ne: "sha256Hash (docs ! i) \<noteq> h" by simp
    from "1.prems" have "\<forall>j. Suc i \<le> j \<and> j < length docs \<longrightarrow> sha256Hash (docs ! j) \<noteq> h"
      by simp
    with "1.IH" True ne have "revokeDocument_loop (Suc i) u h docs ev = (docs, ev)" by simp
    with True ne show ?thesis by (subst revokeDocument_loop.simps) simp
  qed
qed

lemma revokeDocument_loop_hit:
  "i \<le> k \<Longrightarrow> k < length docs \<Longrightarrow> sha256Hash (docs ! k) = h \<Longrightarrow>
   (\<forall>j. i \<le> j \<and> j < k \<longrightarrow> sha256Hash (docs ! j) \<noteq> h) \<Longrightarrow>
     revokeDocument_loop i u h docs ev =
       (butlast (docs[k := docs ! (length docs - 1)]),
        ev @ [DocumentRevoked u h (ipfsCID (docs ! k))])"
proof (induction i u h docs ev rule: revokeDocument_loop.induct)
  case (1 i u h docs ev)
  show ?case
  proof (cases "i = k")
    case True
    with "1.prems" show ?thesis by (subst revokeDocument_loop.simps) simp
  next
    case False
    with "1.prems" have lt: "i < k" and il: "i < length docs" by simp_all
    with "1.prems" have ne: "sha256Hash (docs ! i) \<noteq> h" by simp
    have "revokeDocument_loop (Suc i) u h docs ev =
       (butlast (docs[k := docs ! (length docs - 1)]),
        ev @ [DocumentRevoked u h (ipfsCID (docs ! k))])"
      using "1.IH" [OF il ne] lt "1.prems" by simp
    with il ne show ?thesis by (subst revokeDocument_loop.simps) simp
  qed
qed

lemma first_match:
  assumes "h \<in> set (map sha256Hash docs)"
  shows "\<exists>k. k < length docs \<and> sha256Hash (docs ! k) = h \<and> (\<forall>j<k. sha256Hash (docs ! j) \<noteq> h)"
proof -
  let ?P = "\<lambda>k. k < length docs \<and> sha256Hash (docs ! k) = h"
  from assms have "\<exists>k. ?P k" by (auto simp: in_set_conv_nth)
  then have "?P (LEAST k. ?P k)" by (rule LeastI_ex)
  then have l: "(LEAST k. ?P k) < length docs" and e: "sha256Hash (docs ! (LEAST k. ?P k)) = h"
    by simp_all
  have "sha256Hash (docs ! j) \<noteq> h" if "j < (LEAST k. ?P k)" for j
  proof -
    from that have "\<not> ?P j" by (rule not_less_Least)
    moreover from that l have "j < length docs" by simp
    ultimately show ?thesis by simp
  qed
  with l e show ?thesis by blast
qed

section \<open>Lemmas about the index mappings\<close>

lemma auth_consistent_mem: "auth_consistent idx lst \<Longrightarrow> a \<in> set lst \<longleftrightarrow> idx a \<noteq> 0"
  unfolding auth_consistent_def in_set_conv_nth
  by (metis Suc_pred bot_nat_0.not_eq_extremum lessI less_le_trans nat.simps(3) diff_Suc_1 less_Suc_eq_le Suc_le_lessD)

lemma auth_consistent_distinct: "auth_consistent idx lst \<Longrightarrow> distinct lst"
  unfolding auth_consistent_def distinct_conv_nth
  by (metis nat.inject)

lemma auth_consistent_slot:
  "auth_consistent idx lst \<Longrightarrow> a \<in> set lst \<Longrightarrow>
     1 \<le> idx a \<and> idx a \<le> length lst \<and> lst ! (idx a - 1) = a"
  using auth_consistent_mem [of idx lst a] unfolding auth_consistent_def by auto

lemma auth_consistent_add:
  assumes "auth_consistent idx lst" "idx a = 0"
  shows "auth_consistent (idx(a := length lst + 1)) (lst @ [a])"
proof -
  from assms(1) have A: "\<And>b. idx b \<noteq> 0 \<Longrightarrow> idx b \<le> length lst \<and> lst ! (idx b - 1) = b"
    and B: "\<And>i. i < length lst \<Longrightarrow> idx (lst ! i) = Suc i"
    unfolding auth_consistent_def by blast+
  let ?idx = "idx(a := length lst + 1)" and ?lst = "lst @ [a]"
  have "?idx b \<le> length ?lst \<and> ?lst ! (?idx b - 1) = b" if "?idx b \<noteq> 0" for b
  proof (cases "b = a")
    case True
    then show ?thesis by simp
  next
    case False
    with that have "idx b \<noteq> 0" by simp
    from A [OF this] False this show ?thesis by (auto simp: nth_append)
  qed
  moreover have "?idx (?lst ! i) = Suc i" if "i < length ?lst" for i
  proof (cases "i < length lst")
    case True
    from B [OF True] assms(2) have "lst ! i \<noteq> a" by auto
    with B [OF True] True show ?thesis by (simp add: nth_append)
  next
    case False
    with that have "i = length lst" by simp
    then show ?thesis by simp
  qed
  ultimately show ?thesis unfolding auth_consistent_def by blast
qed

lemma auth_consistent_remove_last:
  assumes "auth_consistent idx lst" "idx a > 0" "idx a - 1 = length lst - 1"
  shows "auth_consistent (idx(a := 0)) (butlast lst)"
proof -
  from assms(1) have A: "\<And>b. idx b \<noteq> 0 \<Longrightarrow> idx b \<le> length lst \<and> lst ! (idx b - 1) = b"
    and B: "\<And>i. i < length lst \<Longrightarrow> idx (lst ! i) = Suc i"
    unfolding auth_consistent_def by blast+
  from assms(2) A [of a] have la: "idx a \<le> length lst" "lst ! (idx a - 1) = a" by simp_all
  with assms(2,3) have ia: "idx a = length lst" by arith
  let ?idx = "idx(a := 0)" and ?lst = "butlast lst"
  have "?idx b \<le> length ?lst \<and> ?lst ! (?idx b - 1) = b" if "?idx b \<noteq> 0" for b
  proof -
    from that have ne: "b \<noteq> a" and nz: "idx b \<noteq> 0" by (auto split: if_splits)
    from A [OF nz] have 1: "idx b \<le> length lst" "lst ! (idx b - 1) = b" by simp_all
    have "idx b \<noteq> length lst"
    proof
      assume "idx b = length lst"
      with 1 la ia have "b = a" by simp
      with ne show False by simp
    qed
    with 1 nz ne show ?thesis by (simp add: nth_butlast)
  qed
  moreover have "?idx (?lst ! i) = Suc i" if "i < length ?lst" for i
  proof -
    from that have il: "i < length lst" by simp
    from that have "?lst ! i = lst ! i" by (simp add: nth_butlast)
    moreover from B [OF il] ia that have "lst ! i \<noteq> a" by auto
    ultimately show ?thesis using B [OF il] by simp
  qed
  ultimately show ?thesis unfolding auth_consistent_def by blast
qed

lemma auth_consistent_remove_swap:
  assumes "auth_consistent idx lst" "idx a > 0" "idx a - 1 \<noteq> length lst - 1"
  shows "auth_consistent
           ((idx((lst[idx a - 1 := lst ! (length lst - 1)]) ! (idx a - 1) := idx a - 1 + 1))(a := 0))
           (butlast (lst[idx a - 1 := lst ! (length lst - 1)]))"
proof -
  from assms(1) have A: "\<And>b. idx b \<noteq> 0 \<Longrightarrow> idx b \<le> length lst \<and> lst ! (idx b - 1) = b"
    and B: "\<And>i. i < length lst \<Longrightarrow> idx (lst ! i) = Suc i"
    unfolding auth_consistent_def by blast+
  define k where "k = idx a - 1"
  define n where "n = length lst - 1"
  define z where "z = lst ! n"
  from assms(2) A [of a] have la: "idx a \<le> length lst" "lst ! k = a" by (simp_all add: k_def)
  with assms(2,3) have kn: "k < n" and nl: "n < length lst" and ik: "idx a = Suc k"
    by (auto simp: k_def n_def)
  have iz: "idx z = Suc n" using B [OF nl] by (simp add: z_def)
  have za: "z \<noteq> a" using iz ik kn by auto
  have upd: "(lst[k := z]) ! k = z" using kn nl by simp
  let ?idx = "(idx(z := Suc k))(a := 0)" and ?lst = "butlast (lst[k := z])"
  have len: "length ?lst = n" by (simp add: n_def)
  have nth: "?lst ! i = (if i = k then z else lst ! i)" if "i < n" for i
    using that nl by (simp add: nth_butlast nth_list_update)
  have 1: "?idx b \<le> length ?lst \<and> ?lst ! (?idx b - 1) = b" if "?idx b \<noteq> 0" for b
  proof (cases "b = z")
    case True
    have "?idx b = Suc k" using True za by simp
    moreover have "?lst ! k = z" using nth [OF kn] by simp
    moreover have "Suc k \<le> length ?lst" unfolding len using kn by simp
    ultimately show ?thesis using True by simp
  next
    case False
    from that have ne: "b \<noteq> a" by (auto split: if_splits)
    with that False have nz: "idx b \<noteq> 0" by simp
    from A [OF nz] have b1: "idx b \<le> length lst" "lst ! (idx b - 1) = b" by simp_all
    have "idx b - 1 \<noteq> n" using b1 False by (auto simp: z_def)
    moreover have "idx b - 1 \<noteq> k" using b1 la ne by auto
    ultimately have "idx b - 1 < n" "idx b - 1 \<noteq> k" using b1 nz by (auto simp: n_def)
    then have "?lst ! (idx b - 1) = lst ! (idx b - 1)" "idx b \<le> length ?lst"
      using nth [of "idx b - 1"] nz unfolding len by auto
    then show ?thesis using b1 ne False by simp
  qed
  have 2: "?idx (?lst ! i) = Suc i" if "i < length ?lst" for i
  proof (cases "i = k")
    case True
    have "?lst ! k = z" using nth [OF kn] by simp
    with True za show ?thesis by simp
  next
    case False
    from that have il: "i < n" unfolding len .
    then have ill: "i < length lst" using nl by simp
    from B [OF ill] ik False have "lst ! i \<noteq> a" by auto
    moreover from B [OF ill] iz il have "lst ! i \<noteq> z" by auto
    moreover have "?lst ! i = lst ! i" using nth [OF il] False by simp
    ultimately show ?thesis using B [OF ill] by simp
  qed
  have "auth_consistent ?idx ?lst" unfolding auth_consistent_def using 1 2 by blast
  then show ?thesis using upd by (simp add: k_def n_def z_def)
qed

section \<open>The operations, characterised\<close>

lemma storeDocument_Inr:
  "storeDocument a u h c s = Inr s' \<longleftrightarrow>
     \<not> busy s \<and> (isIssuer s a \<or> isOwner s a) \<and> h \<notin> set (map sha256Hash (userDocuments s u)) \<and>
     s' = s\<lparr> userDocuments := (userDocuments s)
                (u := userDocuments s u @ [\<lparr>sha256Hash = h, ipfsCID = c\<rparr>]),
              events := events s @ [DocumentStored u h c] \<rparr>"
  by (auto simp: storeDocument_def nonReentrant_def storeDocument_body_def storeDocument_loop_0
      isIssuer_def isOwner_def split: sum.splits)

lemma revokeDocument_miss:
  assumes "\<not> busy s" "isRevoker s a \<or> isOwner s a" "h \<notin> set (map sha256Hash (userDocuments s u))"
  shows "revokeDocument a u h s = Inr s"
proof -
  from assms(3) have "\<forall>j. 0 \<le> j \<and> j < length (userDocuments s u) \<longrightarrow>
      sha256Hash (userDocuments s u ! j) \<noteq> h"
    using nth_mem by fastforce
  then have "revokeDocument_loop 0 u h (userDocuments s u) (events s) = (userDocuments s u, events s)"
    by (rule revokeDocument_loop_miss)
  with assms(1,2) show ?thesis
    by (simp add: revokeDocument_def nonReentrant_def revokeDocument_body_def isRevoker_def isOwner_def)
qed

lemma revokeDocument_hit:
  assumes "\<not> busy s" "isRevoker s a \<or> isOwner s a"
    and "k < length (userDocuments s u)" "sha256Hash (userDocuments s u ! k) = h"
    and "\<forall>j<k. sha256Hash (userDocuments s u ! j) \<noteq> h"
  shows "revokeDocument a u h s =
     Inr (s\<lparr> userDocuments := (userDocuments s)
                (u := butlast ((userDocuments s u)[k := userDocuments s u ! (length (userDocuments s u) - 1)])),
              events := events s @ [DocumentRevoked u h (ipfsCID (userDocuments s u ! k))] \<rparr>)"
proof -
  have "revokeDocument_loop 0 u h (userDocuments s u) (events s) =
      (butlast ((userDocuments s u)[k := userDocuments s u ! (length (userDocuments s u) - 1)]),
       events s @ [DocumentRevoked u h (ipfsCID (userDocuments s u ! k))])"
    using assms(3,4,5) by (intro revokeDocument_loop_hit) simp_all
  with assms(1,2) show ?thesis
    by (simp add: revokeDocument_def nonReentrant_def revokeDocument_body_def isRevoker_def isOwner_def)
qed

lemma revokeDocument_busy: "busy s \<Longrightarrow> revokeDocument a u h s = Inl ReentrancyError"
  by (simp add: revokeDocument_def nonReentrant_def)

lemma revokeDocument_unauth:
  "\<not> busy s \<Longrightarrow> \<not> (isRevoker s a \<or> isOwner s a) \<Longrightarrow> revokeDocument a u h s = Inl Unauthorized"
  by (simp add: revokeDocument_def nonReentrant_def revokeDocument_body_def isRevoker_def isOwner_def)

lemma swap_remove_hash_distinct:
  assumes "distinct (map sha256Hash docs)" "k < length docs"
  shows "distinct (map sha256Hash (butlast (docs[k := docs ! (length docs - 1)])))"
    and "set (map sha256Hash (butlast (docs[k := docs ! (length docs - 1)]))) =
           set (map sha256Hash docs) - {sha256Hash (docs ! k)}"
proof -
  have k': "k < length (map sha256Hash docs)" using assms(2) by simp
  note sr = swap_remove_distinct [OF assms(1) k']
  show "distinct (map sha256Hash (butlast (docs[k := docs ! (length docs - 1)])))"
    using sr assms(2) by (simp only: swap_remove_map [OF assms(2)])
  show "set (map sha256Hash (butlast (docs[k := docs ! (length docs - 1)]))) =
           set (map sha256Hash docs) - {sha256Hash (docs ! k)}"
    using sr assms(2) by (simp only: swap_remove_map [OF assms(2)] nth_map [OF assms(2)])
qed

lemma revokeDocument_cases:
  assumes "revokeDocument a u h s = Inr s'"
  obtains (miss) "h \<notin> set (map sha256Hash (userDocuments s u))" "s' = s"
  | (hit) k where "k < length (userDocuments s u)" "sha256Hash (userDocuments s u ! k) = h"
      "\<forall>j<k. sha256Hash (userDocuments s u ! j) \<noteq> h"
      "s' = s\<lparr> userDocuments := (userDocuments s)
                (u := butlast ((userDocuments s u)[k := userDocuments s u ! (length (userDocuments s u) - 1)])),
              events := events s @ [DocumentRevoked u h (ipfsCID (userDocuments s u ! k))] \<rparr>"
proof -
  from assms have nb: "\<not> busy s" using revokeDocument_busy [of s a u h] by auto
  with assms have au: "isRevoker s a \<or> isOwner s a"
    using revokeDocument_unauth [of s a u h] by auto
  show thesis
  proof (cases "h \<in> set (map sha256Hash (userDocuments s u))")
    case False
    with revokeDocument_miss [OF nb au False] assms miss show ?thesis by simp
  next
    case True
    from first_match [OF True] obtain k where k: "k < length (userDocuments s u)"
      "sha256Hash (userDocuments s u ! k) = h" "\<forall>j<k. sha256Hash (userDocuments s u ! j) \<noteq> h"
      by blast
    from revokeDocument_hit [OF nb au k] assms hit [OF k] show ?thesis by simp
  qed
qed

subsection \<open>What each operation leaves unchanged\<close>

lemma storeDocument_frame:
  assumes "storeDocument a u h c s = Inr s'"
  shows "initialized s' = initialized s \<and> busy s' = busy s \<and> owners s' = owners s \<and>
         issuerIndex s' = issuerIndex s \<and> issuerList s' = issuerList s \<and>
         revokerIndex s' = revokerIndex s \<and> revokerList s' = revokerList s \<and>
         (\<forall>u'. u' \<noteq> u \<longrightarrow> userDocuments s' u' = userDocuments s u')"
  using assms by (simp add: storeDocument_Inr)

lemma revokeDocument_frame:
  assumes "revokeDocument a u h s = Inr s'"
  shows "initialized s' = initialized s \<and> busy s' = busy s \<and> owners s' = owners s \<and>
         issuerIndex s' = issuerIndex s \<and> issuerList s' = issuerList s \<and>
         revokerIndex s' = revokerIndex s \<and> revokerList s' = revokerList s \<and>
         (\<forall>u'. u' \<noteq> u \<longrightarrow> userDocuments s' u' = userDocuments s u')"
  using assms by (cases rule: revokeDocument_cases) simp_all

lemma addAuthorizedIssuer_frame:
  assumes "addAuthorizedIssuer sender a s = Inr s'"
  shows "initialized s' = initialized s \<and> busy s' = busy s \<and> owners s' = owners s \<and>
         revokerIndex s' = revokerIndex s \<and> revokerList s' = revokerList s \<and>
         userDocuments s' = userDocuments s"
  using assms by (auto simp: addAuthorizedIssuer_def onlyOwners_def split: if_splits)

lemma removeAuthorizedIssuer_frame:
  assumes "removeAuthorizedIssuer sender a s = Inr s'"
  shows "initialized s' = initialized s \<and> busy s' = busy s \<and> owners s' = owners s \<and>
         revokerIndex s' = revokerIndex s \<and> revokerList s' = revokerList s \<and>
         userDocuments s' = userDocuments s"
  using assms by (auto simp: removeAuthorizedIssuer_def onlyOwners_def Let_def split: if_splits)

lemma addAuthorizedRevoker_frame:
  assumes "addAuthorizedRevoker sender a s = Inr s'"
  shows "initialized s' = initialized s \<and> busy s' = busy s \<and> owners s' = owners s \<and>
         issuerIndex s' = issuerIndex s \<and> issuerList s' = issuerList s \<and>
         userDocuments s' = userDocuments s"
  using assms by (auto simp: addAuthorizedRevoker_def onlyOwners_def split: if_splits)

lemma removeAuthorizedRevoker_frame:
  assumes "removeAuthorizedRevoker sender a s = Inr s'"
  shows "initialized s' = initialized s \<and> busy s' = busy s \<and> owners s' = owners s \<and>
         issuerIndex s' = issuerIndex s \<and> issuerList s' = issuerList s \<and>
         userDocuments s' = userDocuments s"
  using assms by (auto simp: removeAuthorizedRevoker_def onlyOwners_def Let_def split: if_splits)

lemma initialize_Inr:
  "initialize sender origin o2 o3 s = Inr s' \<longleftrightarrow>
     \<not> initialized s \<and> sender = origin \<and> s' = s\<lparr>initialized := True, owners := (sender, o2, o3)\<rparr>"
  by (auto simp: initialize_def initializer_def initialize_body_def)

lemma authorizeUpgrade_Inr:
  "authorizeUpgrade sender impl s = Inr s' \<longleftrightarrow> isOwner s sender \<and> s' = s"
  by (auto simp: authorizeUpgrade_def onlyOwners_def)

subsection \<open>Every operation preserves the invariants\<close>

lemma exec_busy: "exec c s = Inr s' \<Longrightarrow> busy s' = busy s"
  by (cases c)
    (simp_all add: initialize_Inr authorizeUpgrade_Inr addAuthorizedIssuer_frame
      removeAuthorizedIssuer_frame addAuthorizedRevoker_frame removeAuthorizedRevoker_frame
      storeDocument_frame revokeDocument_frame)

lemma storeDocument_docs_unique:
  assumes "docs_unique s" "storeDocument a u h c s = Inr s'"
  shows "docs_unique s'"
proof -
  from assms(2) have nd: "h \<notin> set (map sha256Hash (userDocuments s u))"
    and s': "s' = s\<lparr> userDocuments := (userDocuments s)
                (u := userDocuments s u @ [\<lparr>sha256Hash = h, ipfsCID = c\<rparr>]),
              events := events s @ [DocumentStored u h c] \<rparr>"
    by (simp_all add: storeDocument_Inr)
  from assms(1) nd show ?thesis
    unfolding s' docs_unique_def by auto
qed

lemma revokeDocument_docs_unique:
  assumes "docs_unique s" "revokeDocument a u h s = Inr s'"
  shows "docs_unique s'"
  using assms(2)
proof (cases rule: revokeDocument_cases)
  case miss
  with assms(1) show ?thesis by simp
next
  case (hit k)
  from assms(1) have "distinct (map sha256Hash (userDocuments s u))"
    by (simp add: docs_unique_def)
  from swap_remove_hash_distinct(1) [OF this hit(1)] assms(1) show ?thesis
    unfolding hit(4) docs_unique_def by auto
qed

lemma exec_docs_unique:
  assumes "docs_unique s" "exec c s = Inr s'"
  shows "docs_unique s'"
proof (cases c)
  case (StoreDocument a u h cid)
  with assms show ?thesis by (auto intro: storeDocument_docs_unique)
next
  case (RevokeDocument a u h)
  with assms show ?thesis by (auto intro: revokeDocument_docs_unique)
next
  case (Initialize a b c d)
  with assms show ?thesis by (auto simp: initialize_Inr docs_unique_def)
next
  case (AuthorizeUpgrade a b)
  with assms show ?thesis by (auto simp: authorizeUpgrade_Inr)
next
  case (AddAuthorizedIssuer a b)
  with assms addAuthorizedIssuer_frame [of a b s s'] show ?thesis by (simp add: docs_unique_def)
next
  case (RemoveAuthorizedIssuer a b)
  with assms removeAuthorizedIssuer_frame [of a b s s'] show ?thesis by (simp add: docs_unique_def)
next
  case (AddAuthorizedRevoker a b)
  with assms addAuthorizedRevoker_frame [of a b s s'] show ?thesis by (simp add: docs_unique_def)
next
  case (RemoveAuthorizedRevoker a b)
  with assms removeAuthorizedRevoker_frame [of a b s s'] show ?thesis by (simp add: docs_unique_def)
qed

lemma auth_consistent_removed:
  assumes "auth_consistent idx lst" "idx a > 0"
  shows "auth_consistent (removed_index idx lst a) (removed_list idx lst a)"
  using auth_consistent_remove_swap [OF assms] auth_consistent_remove_last [OF assms]
  by (simp add: removed_index_def removed_list_def)

lemma removeAuthorizedIssuer_consistent:
  assumes "auth_consistent (issuerIndex s) (issuerList s)" "isOwner s sender" "issuerIndex s a > 0"
  shows "removeAuthorizedIssuer sender a s =
     Inr (s\<lparr> issuerIndex := removed_index (issuerIndex s) (issuerList s) a,
              issuerList := removed_list (issuerIndex s) (issuerList s) a,
              events := events s @ [IssuerRemoved a] \<rparr>)"
proof -
  from assms(1,3) have "issuerIndex s a \<le> length (issuerList s)"
    unfolding auth_consistent_def by simp
  with assms(2,3) show ?thesis
    by (auto simp: removeAuthorizedIssuer_def onlyOwners_def removed_index_def removed_list_def Let_def)
qed

lemma removeAuthorizedRevoker_consistent:
  assumes "auth_consistent (revokerIndex s) (revokerList s)" "isOwner s sender" "revokerIndex s a > 0"
  shows "removeAuthorizedRevoker sender a s =
     Inr (s\<lparr> revokerIndex := removed_index (revokerIndex s) (revokerList s) a,
              revokerList := removed_list (revokerIndex s) (revokerList s) a,
              events := events s @ [RevokerRemoved a] \<rparr>)"
proof -
  from assms(1,3) have "revokerIndex s a \<le> length (revokerList s)"
    unfolding auth_consistent_def by simp
  with assms(2,3) show ?thesis
    by (auto simp: removeAuthorizedRevoker_def onlyOwners_def removed_index_def removed_list_def Let_def)
qed

lemma removeAuthorizedIssuer_pre:
  "removeAuthorizedIssuer sender a s = Inr s' \<Longrightarrow> isOwner s sender \<and> issuerIndex s a > 0"
  by (auto simp: removeAuthorizedIssuer_def onlyOwners_def split: if_splits)

lemma removeAuthorizedRevoker_pre:
  "removeAuthorizedRevoker sender a s = Inr s' \<Longrightarrow> isOwner s sender \<and> revokerIndex s a > 0"
  by (auto simp: removeAuthorizedRevoker_def onlyOwners_def split: if_splits)

lemma addAuthorizedIssuer_consistent:
  assumes "auth_consistent (issuerIndex s) (issuerList s)" "addAuthorizedIssuer sender a s = Inr s'"
  shows "auth_consistent (issuerIndex s') (issuerList s')"
proof -
  from assms(2) have z: "issuerIndex s a = 0"
    and s': "s' = s\<lparr> issuerIndex := (issuerIndex s)(a := length (issuerList s) + 1),
                    issuerList := issuerList s @ [a],
                    events := events s @ [IssuerAdded a] \<rparr>"
    by (auto simp: addAuthorizedIssuer_def onlyOwners_def split: if_splits)
  from auth_consistent_add [OF assms(1) z] show ?thesis unfolding s' by simp
qed

lemma addAuthorizedRevoker_consistent:
  assumes "auth_consistent (revokerIndex s) (revokerList s)" "addAuthorizedRevoker sender a s = Inr s'"
  shows "auth_consistent (revokerIndex s') (revokerList s')"
proof -
  from assms(2) have z: "revokerIndex s a = 0"
    and s': "s' = s\<lparr> revokerIndex := (revokerIndex s)(a := length (revokerList s) + 1),
                    revokerList := revokerList s @ [a],
                    events := events s @ [RevokerAdded a] \<rparr>"
    by (auto simp: addAuthorizedRevoker_def onlyOwners_def split: if_splits)
  from auth_consistent_add [OF assms(1) z] show ?thesis unfolding s' by simp
qed

lemma removeAuthorizedIssuer_keeps_consistent:
  assumes "auth_consistent (issuerIndex s) (issuerList s)" "removeAuthorizedIssuer sender a s = Inr s'"
  shows "auth_consistent (issuerIndex s') (issuerList s')"
proof -
  from removeAuthorizedIssuer_pre [OF assms(2)] have pre: "isOwner s sender" "issuerIndex s a > 0"
    by simp_all
  from removeAuthorizedIssuer_consistent [OF assms(1) pre] assms(2)
  have s': "s' = s\<lparr> issuerIndex := removed_index (issuerIndex s) (issuerList s) a,
              issuerList := removed_list (issuerIndex s) (issuerList s) a,
              events := events s @ [IssuerRemoved a] \<rparr>" by simp
  from auth_consistent_removed [OF assms(1) pre(2)] show ?thesis unfolding s' by simp
qed

lemma removeAuthorizedRevoker_keeps_consistent:
  assumes "auth_consistent (revokerIndex s) (revokerList s)" "removeAuthorizedRevoker sender a s = Inr s'"
  shows "auth_consistent (revokerIndex s') (revokerList s')"
proof -
  from removeAuthorizedRevoker_pre [OF assms(2)] have pre: "isOwner s sender" "revokerIndex s a > 0"
    by simp_all
  from removeAuthorizedRevoker_consistent [OF assms(1) pre] assms(2)
  have s': "s' = s\<lparr> revokerIndex := removed_index (revokerIndex s) (revokerList s) a,
              revokerList := removed_list (revokerIndex s) (revokerList s) a,
              events := events s @ [RevokerRemoved a] \<rparr>" by simp
  from auth_consistent_removed [OF assms(1) pre(2)] show ?thesis unfolding s' by simp
qed

lemma exec_issuer_consistent:
  assumes "auth_consistent (issuerIndex s) (issuerList s)" "exec c s = Inr s'"
  shows "auth_consistent (issuerIndex s') (issuerList s')"
proof (cases c)
  case (StoreDocument a u h cid)
  with assms storeDocument_frame [of a u h cid s s'] show ?thesis by simp
next
  case (RevokeDocument a u h)
  with assms revokeDocument_frame [of a u h s s'] show ?thesis by simp
next
  case (Initialize a b c d)
  with assms show ?thesis by (auto simp: initialize_Inr)
next
  case (AuthorizeUpgrade a b)
  with assms show ?thesis by (auto simp: authorizeUpgrade_Inr)
next
  case (AddAuthorizedIssuer a b)
  with assms show ?thesis by (auto intro: addAuthorizedIssuer_consistent)
next
  case (RemoveAuthorizedIssuer a b)
  with assms show ?thesis by (auto intro: removeAuthorizedIssuer_keeps_consistent)
next
  case (AddAuthorizedRevoker a b)
  with assms addAuthorizedRevoker_frame [of a b s s'] show ?thesis by simp
next
  case (RemoveAuthorizedRevoker a b)
  with assms removeAuthorizedRevoker_frame [of a b s s'] show ?thesis by simp
qed

lemma exec_revoker_consistent:
  assumes "auth_consistent (revokerIndex s) (revokerList s)" "exec c s = Inr s'"
  shows "auth_consistent (revokerIndex s') (revokerList s')"
proof (cases c)
  case (StoreDocument a u h cid)
  with assms storeDocument_frame [of a u h cid s s'] show ?thesis by simp
next
  case (RevokeDocument a u h)
  with assms revokeDocument_frame [of a u h s s'] show ?thesis by simp
next
  case (Initialize a b c d)
  with assms show ?thesis by (auto simp: initialize_Inr)
next
  case (AuthorizeUpgrade a b)
  with assms show ?thesis by (auto simp: authorizeUpgrade_Inr)
next
  case (AddAuthorizedIssuer a b)
  with assms addAuthorizedIssuer_frame [of a b s s'] show ?thesis by simp
next
  case (RemoveAuthorizedIssuer a b)
  with assms removeAuthorizedIssuer_frame [of a b s s'] show ?thesis by simp
next
  case (AddAuthorizedRevoker a b)
  with assms show ?thesis by (auto intro: addAuthorizedRevoker_consistent)
next
  case (RemoveAuthorizedRevoker a b)
  with assms show ?thesis by (auto intro: removeAuthorizedRevoker_keeps_consistent)
qed

lemma transact_cases:
  obtains (reverted) e where "exec c s = Inl e" "transact c s = s"
  | (committed) s' where "exec c s = Inr s'" "transact c s = s'"
  by (cases "exec c s") (auto simp: transact_def)

lemma transact_docs_unique: "docs_unique s \<Longrightarrow> docs_unique (transact c s)"
  by (cases c s rule: transact_cases) (auto intro: exec_docs_unique)

lemma transact_issuer_consistent:
  "auth_consistent (issuerIndex s) (issuerList s) \<Longrightarrow>
     auth_consistent (issuerIndex (transact c s)) (issuerList (transact c s))"
  by (cases c s rule: transact_cases) (auto intro: exec_issuer_consistent)

lemma transact_revoker_consistent:
  "auth_consistent (revokerIndex s) (revokerList s) \<Longrightarrow>
     auth_consistent (revokerIndex (transact c s)) (revokerList (transact c s))"
  by (cases c s rule: transact_cases) (auto intro: exec_revoker_consistent)

lemma transact_busy: "busy (transact c s) = busy s"
  by (cases c s rule: transact_cases) (auto dest: exec_busy)

lemma transact_inv: "state_inv s \<Longrightarrow> state_inv (transact c s)"
  by (simp add: state_inv_def transact_docs_unique transact_issuer_consistent
      transact_revoker_consistent transact_busy)

lemma run_inv: "state_inv s \<Longrightarrow> state_inv (run cs s)"
  by (induction cs arbitrary: s) (simp_all add: transact_inv)

lemma init_state_inv: "state_inv init_state"
  by (simp add: state_inv_def docs_unique_def auth_consistent_def init_state_def)

lemma reachable_inv: "state_inv (run cs init_state)"
  by (rule run_inv [OF init_state_inv])

text \<open>Between calls the busy flag is clear: it is clear in every reachable state.\<close>

lemma reachable_not_busy: "\<not> busy (run cs init_state)"
  using reachable_inv [of cs] by (simp add: state_inv_def)

section \<open>Further lemmas, and the scenario evaluated\<close>

lemmas eval_simps = init_state_def transact_def initialize_def initializer_def
  initialize_body_def authorizeUpgrade_def onlyOwners_def isOwner_def isIssuer_def isRevoker_def
  nonReentrant_def addAuthorizedIssuer_def removeAuthorizedIssuer_def addAuthorizedRevoker_def
  removeAuthorizedRevoker_def storeDocument_def storeDocument_body_def revokeDocument_def
  revokeDocument_body_def storeDocument_loop.simps revokeDocument_loop.simps getDocuments_def
  getDocumentCount_def max_uint256_def Let_def

lemma revokeDocument_removes_hash:
  assumes "docs_unique s" "revokeDocument a u h s = Inr s'"
  shows "h \<notin> set (map sha256Hash (userDocuments s' u))"
  using assms(2)
proof (cases rule: revokeDocument_cases)
  case miss
  then show ?thesis by simp
next
  case (hit k)
  from assms(1) have "distinct (map sha256Hash (userDocuments s u))"
    by (simp add: docs_unique_def)
  from swap_remove_hash_distinct(2) [OF this hit(1)] hit(2) show ?thesis
    unfolding hit(4) by simp
qed

lemma reachable_docs_unique: "docs_unique (run cs init_state)"
  using reachable_inv [of cs] by (simp add: state_inv_def)

lemma committedI: "\<exists>s'. exec c s = Inr s' \<Longrightarrow> exec c s = Inr (transact c s)"
  by (auto simp: transact_def)

lemma state_A_store: "storeDocument 10 42 7 ''cidA'' state_A = Inr state_B"
  unfolding state_B_def
  using committedI [of "StoreDocument 10 42 7 ''cidA''" state_A]
  by (simp add: state_A_def eval_simps)

lemma state_B_revoke: "revokeDocument 20 42 7 state_B = Inr state_C"
  unfolding state_C_def
  using committedI [of "RevokeDocument 20 42 7" state_B]
  by (simp add: state_B_def state_A_def eval_simps)

lemma state_A_fields:
  "\<not> busy state_A" "owners state_A = (1, 2, 3)" "issuerList state_A = [10]"
  "revokerList state_A = [20]" "userDocuments state_A 42 = []"
  "issuerIndex state_A 10 = 1" "revokerIndex state_A 20 = 1"
  "issuerIndex state_A 99 = 0" "revokerIndex state_A 99 = 0"
  by (simp_all add: state_A_def eval_simps)

lemma state_B_fields:
  "\<not> busy state_B" "owners state_B = (1, 2, 3)"
  "userDocuments state_B 42 = [\<lparr>sha256Hash = 7, ipfsCID = ''cidA''\<rparr>]"
  "issuerIndex state_B 10 = 1" "revokerIndex state_B 20 = 1"
  by (simp_all add: state_B_def state_A_def eval_simps)

lemma storeDocument_busy: "busy s \<Longrightarrow> storeDocument a u h c s = Inl ReentrancyError"
  by (simp add: storeDocument_def nonReentrant_def)

lemma storeDocument_unauth:
  "\<not> busy s \<Longrightarrow> \<not> (isIssuer s a \<or> isOwner s a) \<Longrightarrow> storeDocument a u h c s = Inl Unauthorized"
  by (simp add: storeDocument_def nonReentrant_def storeDocument_body_def isIssuer_def isOwner_def)

lemma storeDocument_duplicate:
  "\<not> busy s \<Longrightarrow> isIssuer s a \<or> isOwner s a \<Longrightarrow> h \<in> set (map sha256Hash (userDocuments s u)) \<Longrightarrow>
     storeDocument a u h c s = Inl DuplicateDocument"
  by (simp add: storeDocument_def nonReentrant_def storeDocument_body_def storeDocument_loop_0
      isIssuer_def isOwner_def)

lemma exec_owners:
  assumes "initialized s" "exec c s = Inr s'"
  shows "initialized s' \<and> owners s' = owners s"
proof (cases c)
  case (StoreDocument a u h cid)
  with assms storeDocument_frame [of a u h cid s s'] show ?thesis by simp
next
  case (RevokeDocument a u h)
  with assms revokeDocument_frame [of a u h s s'] show ?thesis by simp
next
  case (Initialize a b c d)
  with assms show ?thesis by (auto simp: initialize_Inr)
next
  case (AuthorizeUpgrade a b)
  with assms show ?thesis by (auto simp: authorizeUpgrade_Inr)
next
  case (AddAuthorizedIssuer a b)
  with assms addAuthorizedIssuer_frame [of a b s s'] show ?thesis by simp
next
  case (RemoveAuthorizedIssuer a b)
  with assms removeAuthorizedIssuer_frame [of a b s s'] show ?thesis by simp
next
  case (AddAuthorizedRevoker a b)
  with assms addAuthorizedRevoker_frame [of a b s s'] show ?thesis by simp
next
  case (RemoveAuthorizedRevoker a b)
  with assms removeAuthorizedRevoker_frame [of a b s s'] show ?thesis by simp
qed

lemma transact_owners:
  "initialized s \<Longrightarrow> initialized (transact c s) \<and> owners (transact c s) = owners s"
  by (cases c s rule: transact_cases) (auto dest: exec_owners)

lemma run_owners: "initialized s \<Longrightarrow> initialized (run cs s) \<and> owners (run cs s) = owners s"
proof (induction cs arbitrary: s)
  case Nil
  then show ?case by simp
next
  case (Cons c cs)
  from transact_owners [OF Cons.prems, of c]
  have i: "initialized (transact c s)" and o: "owners (transact c s) = owners s" by simp_all
  from Cons.IH [OF i] o show ?case by simp
qed

lemma state_B_run:
  "state_B = run [Initialize 1 1 2 3, AddAuthorizedIssuer 1 10, AddAuthorizedRevoker 2 20,
     StoreDocument 10 42 7 ''cidA''] init_state"
  by (simp add: state_B_def state_A_def)

lemma state_A_initialized: "initialized state_A"
  by (simp add: state_A_def eval_simps)

lemma reachable_issuer_consistent:
  "auth_consistent (issuerIndex (run cs init_state)) (issuerList (run cs init_state))"
  using reachable_inv [of cs] by (simp add: state_inv_def)

lemma reachable_revoker_consistent:
  "auth_consistent (revokerIndex (run cs init_state)) (revokerList (run cs init_state))"
  using reachable_inv [of cs] by (simp add: state_inv_def)

lemma removed_spec:
  assumes "auth_consistent idx lst" "idx a > 0"
  shows "spec_swap_remove idx lst a (removed_index idx lst a) (removed_list idx lst a)"
    and "set (removed_list idx lst a) = set lst - {a}"
    and "\<forall>m\<in>set (removed_list idx lst a). removed_index idx lst a m > 0"
    and "removed_index idx lst a a = 0"
proof -
  from assms have le: "idx a \<le> length lst" and at: "lst ! (idx a - 1) = a"
    unfolding auth_consistent_def by simp_all
  with assms(2) have lt: "idx a - 1 < length lst" by simp
  show "spec_swap_remove idx lst a (removed_index idx lst a) (removed_list idx lst a)"
    using lt at by (simp add: spec_swap_remove_def removed_index_def removed_list_def Let_def)
  have "removed_list idx lst a = butlast (lst[idx a - 1 := lst ! (length lst - 1)])"
    by (auto simp: removed_list_def)
  with swap_remove_distinct [OF auth_consistent_distinct [OF assms(1)] lt] at
  show "set (removed_list idx lst a) = set lst - {a}" by simp
  from auth_consistent_removed [OF assms]
  show "\<forall>m\<in>set (removed_list idx lst a). removed_index idx lst a m > 0"
    by (simp add: auth_consistent_mem)
  show "removed_index idx lst a a = 0" by (simp add: removed_index_def)
qed

lemma state_D_fields:
  "owners state_D = (1, 2, 3)" "issuerList state_D = [10, 11, 12]" "revokerList state_D = [20, 21]"
  by (simp_all add: state_D_def eval_simps)

text \<open>Removing the first of three issuers moves the last one into the first slot.\<close>

lemma state_D_removed:
  "issuerList (transact (RemoveAuthorizedIssuer 1 10) state_D) = [12, 11]"
  "map (issuerIndex (transact (RemoveAuthorizedIssuer 1 10) state_D)) [10, 11, 12] = [0, 2, 1]"
  by (simp_all add: state_D_def eval_simps)

lemma storeDocument_body_busy: "storeDocument_body a u h c t = Inr t' \<Longrightarrow> busy t' = busy t"
  by (auto simp: storeDocument_body_def split: if_splits)

lemma revokeDocument_body_busy: "revokeDocument_body a u h t = Inr t' \<Longrightarrow> busy t' = busy t"
  by (auto simp: revokeDocument_body_def split: if_splits prod.splits)

lemma run_docs_unique: "docs_unique s \<Longrightarrow> docs_unique (run cs s)"
  by (induction cs arbitrary: s) (simp_all add: transact_docs_unique)

lemma revokeDocument_present:
  assumes "docs_unique t" "h \<in> set (map sha256Hash (userDocuments t u))"
    and "revokeDocument b u h t = Inr s2"
  shows "h \<notin> set (map sha256Hash (userDocuments s2 u)) \<and>
         length (userDocuments s2 u) + 1 = length (userDocuments t u) \<and>
         set (map sha256Hash (userDocuments s2 u)) = set (map sha256Hash (userDocuments t u)) - {h}"
  using assms(3)
proof (cases rule: revokeDocument_cases)
  case miss
  with assms(2) show ?thesis by simp
next
  case (hit k)
  from assms(1) have d: "distinct (map sha256Hash (userDocuments t u))"
    by (simp add: docs_unique_def)
  from swap_remove_hash_distinct(2) [OF d hit(1)] hit(2)
  have 3: "set (map sha256Hash (userDocuments s2 u)) = set (map sha256Hash (userDocuments t u)) - {h}"
    unfolding hit(4) by simp
  then have 1: "h \<notin> set (map sha256Hash (userDocuments s2 u))" by blast
  from hit(1) have 2: "length (userDocuments s2 u) + 1 = length (userDocuments t u)"
    unfolding hit(4) by simp
  from 1 2 3 show ?thesis by blast
qed

lemma state_B_later:
  "getDocuments (run [StoreDocument 10 42 8 ''cidB''] state_B) 42 = ([7, 8], [''cidA'', ''cidB''])"
  "revokeDocument 20 42 7 (run [StoreDocument 10 42 8 ''cidB''] state_B) =
     Inr (transact (RevokeDocument 20 42 7) (run [StoreDocument 10 42 8 ''cidB''] state_B))"
  "getDocuments (transact (RevokeDocument 20 42 7) (run [StoreDocument 10 42 8 ''cidB''] state_B)) 42 =
     ([8], [''cidB''])"
  using committedI [of "RevokeDocument 20 42 7" "run [StoreDocument 10 42 8 ''cidB''] state_B"]
  by (simp_all add: state_B_def state_A_def eval_simps)

lemma storeDocument_not_reentrancy:
  "\<not> busy s \<Longrightarrow> storeDocument a u h c s \<noteq> Inl ReentrancyError"
  by (simp add: storeDocument_def nonReentrant_def storeDocument_body_def)

lemma revokeDocument_not_reentrancy:
  "\<not> busy s \<Longrightarrow> revokeDocument a u h s \<noteq> Inl ReentrancyError"
  by (simp add: revokeDocument_def nonReentrant_def revokeDocument_body_def split: prod.splits)

lemma nonReentrant_clears: "nonReentrant pre s = Inr t \<Longrightarrow> \<not> busy s \<and> \<not> busy t"
  by (auto simp: nonReentrant_def split: if_splits sum.splits)

lemma nested_rejected:
  assumes "\<not> busy s" "keeps_busy pre" "\<forall>t. busy t \<longrightarrow> nested t = Inl ReentrancyError"
  shows "(\<forall>t. nonReentrant pre s = Inr t \<longrightarrow> nonReentrant (then_call pre nested) s = Inl ReentrancyError) \<and>
         (\<forall>e. nonReentrant pre s = Inl e \<longrightarrow> nonReentrant (then_call pre nested) s = Inl e)"
proof (cases "pre (s\<lparr>busy := True\<rparr>)")
  case (Inl e)
  with assms(1) show ?thesis by (simp add: nonReentrant_def then_call_def)
next
  case (Inr t)
  with assms(2) have "busy t" by (auto simp: keeps_busy_def)
  with assms(3) have "nested t = Inl ReentrancyError" by simp
  with assms(1) Inr show ?thesis by (simp add: nonReentrant_def then_call_def)
qed

lemma keeps_busy_bodies:
  "keeps_busy (storeDocument_body a u h c)" "keeps_busy (revokeDocument_body a u h)"
  using storeDocument_body_busy revokeDocument_body_busy by (auto simp: keeps_busy_def)

lemma nested_at_entry:
  assumes "\<not> busy s" "\<forall>t. busy t \<longrightarrow> nested t = Inl ReentrancyError"
  shows "nonReentrant nested s = Inl ReentrancyError"
  using assms by (simp add: nonReentrant_def)

section \<open>The claims\<close>

subsection \<open>C1\<close>

text \<open>
  C1. For every subject, in every reachable state, no two records of the subject's
  collection share a hash; every transaction preserves this, from any state that has it;
  and so, when a revoke in a reachable state returns, no record with the revoked hash is
  left: the first match it removed was the only one.
\<close>

theorem docs_unique_invariant:
  "(\<forall>i j. i < length (userDocuments (run cs init_state) u) \<and>
          j < length (userDocuments (run cs init_state) u) \<and> i \<noteq> j \<longrightarrow>
          sha256Hash (userDocuments (run cs init_state) u ! i) \<noteq>
          sha256Hash (userDocuments (run cs init_state) u ! j)) \<and>
   (docs_unique s \<longrightarrow> docs_unique (transact c s)) \<and>
   (\<forall>s'. revokeDocument a u h (run cs init_state) = Inr s' \<longrightarrow>
          h \<notin> set (map sha256Hash (userDocuments s' u)))"
proof (intro conjI allI impI)
  fix i j
  assume ij: "i < length (userDocuments (run cs init_state) u) \<and>
          j < length (userDocuments (run cs init_state) u) \<and> i \<noteq> j"
  have "distinct (map sha256Hash (userDocuments (run cs init_state) u))"
    using reachable_docs_unique [of cs] by (simp add: docs_unique_def)
  with ij show "sha256Hash (userDocuments (run cs init_state) u ! i) \<noteq>
          sha256Hash (userDocuments (run cs init_state) u ! j)"
    by (auto simp: distinct_conv_nth)
next
  assume "docs_unique s"
  then show "docs_unique (transact c s)" by (rule transact_docs_unique)
next
  fix s'
  assume "revokeDocument a u h (run cs init_state) = Inr s'"
  with reachable_docs_unique [of cs]
  show "h \<notin> set (map sha256Hash (userDocuments s' u))"
    by (rule revokeDocument_removes_hash)
qed

theorem docs_unique_invariant_witness:
  "sha256Hash (userDocuments (run [Initialize 1 1 2 3, StoreDocument 1 42 7 ''cidA'',
       StoreDocument 1 42 8 ''cidB''] init_state) 42 ! 0) \<noteq>
   sha256Hash (userDocuments (run [Initialize 1 1 2 3, StoreDocument 1 42 7 ''cidA'',
       StoreDocument 1 42 8 ''cidB''] init_state) 42 ! 1) \<and>
   docs_unique state_B \<and>
   docs_unique (transact (StoreDocument 10 42 8 ''cidB'') state_B) \<and>
   (\<exists>s'. revokeDocument 1 42 7 (run [Initialize 1 1 2 3, StoreDocument 1 42 7 ''cidA'',
       StoreDocument 1 42 8 ''cidB''] init_state) = Inr s' \<and>
       7 \<notin> set (map sha256Hash (userDocuments s' 42)))"
proof -
  let ?cs = "[Initialize 1 1 2 3, StoreDocument 1 42 7 ''cidA'', StoreDocument 1 42 8 ''cidB'']"
  note T = docs_unique_invariant [of ?cs 42 state_B "StoreDocument 10 42 8 ''cidB''" 1 7]
  have len: "length (userDocuments (run ?cs init_state) 42) = 2"
    by (simp add: eval_simps)
  have h0: "docs_unique state_B"
    unfolding state_B_run by (rule reachable_docs_unique)
  have "\<exists>s'. revokeDocument 1 42 7 (run ?cs init_state) = Inr s'"
    by (simp add: eval_simps)
  then obtain s' where h1: "revokeDocument 1 42 7 (run ?cs init_state) = Inr s'" ..
  from T len have "sha256Hash (userDocuments (run ?cs init_state) 42 ! 0) \<noteq>
      sha256Hash (userDocuments (run ?cs init_state) 42 ! 1)"
    by (metis zero_less_numeral one_less_numeral_iff semiring_norm(76) zero_neq_one)
  moreover from T h0 have "docs_unique (transact (StoreDocument 10 42 8 ''cidB'') state_B)"
    by blast
  moreover from T h1 have "7 \<notin> set (map sha256Hash (userDocuments s' 42))" by blast
  ultimately show ?thesis using h0 h1 by blast
qed

subsection \<open>C2\<close>

text \<open>
  C2. After a successful store the pair of hash and reference appears in \<open>getDocuments\<close>
  of the subject (at one index of the two parallel arrays). After a successful revoke of
  that hash, \<open>getDocuments\<close> holds no record with the hash and \<open>getDocumentCount\<close> is
  exactly one less than before the revoke: this holds for a revoke in the state the store
  returned, from any state; and, when the store was made in a reachable state, for a
  revoke by any caller after any sequence of further calls, as long as the hash is still
  in the collection, and then the other hashes of the collection are all kept.
\<close>

theorem store_revoke_roundtrip:
  assumes "storeDocument a u h c s = Inr s1"
  shows "(\<exists>i<length (fst (getDocuments s1 u)).
            fst (getDocuments s1 u) ! i = h \<and> snd (getDocuments s1 u) ! i = c) \<and>
         (\<forall>b s2. revokeDocument b u h s1 = Inr s2 \<longrightarrow>
            h \<notin> set (fst (getDocuments s2 u)) \<and>
            getDocumentCount s2 u + 1 = getDocumentCount s1 u) \<and>
         (\<forall>cs cs' b s2.
            s = run cs init_state \<and>
            h \<in> set (fst (getDocuments (run cs' s1) u)) \<and>
            revokeDocument b u h (run cs' s1) = Inr s2 \<longrightarrow>
            h \<notin> set (fst (getDocuments s2 u)) \<and>
            getDocumentCount s2 u + 1 = getDocumentCount (run cs' s1) u \<and>
            set (fst (getDocuments s2 u)) = set (fst (getDocuments (run cs' s1) u)) - {h})"
proof -
  let ?docs = "userDocuments s u"
  from assms have nd: "h \<notin> set (map sha256Hash ?docs)"
    and s1: "userDocuments s1 u = ?docs @ [\<lparr>sha256Hash = h, ipfsCID = c\<rparr>]"
    by (simp_all add: storeDocument_Inr)
  have pair: "\<exists>i<length (fst (getDocuments s1 u)).
            fst (getDocuments s1 u) ! i = h \<and> snd (getDocuments s1 u) ! i = c"
    by (rule exI [of _ "length ?docs"]) (simp add: getDocuments_def s1 nth_append)
  have rev: "h \<notin> set (fst (getDocuments s2 u)) \<and>
            getDocumentCount s2 u + 1 = getDocumentCount s1 u"
    if r: "revokeDocument b u h s1 = Inr s2" for b s2
    using r
  proof (cases rule: revokeDocument_cases)
    case miss
    with s1 show ?thesis by simp
  next
    case (hit k)
    have "\<not> k < length ?docs"
    proof
      assume "k < length ?docs"
      with hit(2) s1 have "sha256Hash (?docs ! k) = h" by (simp add: nth_append)
      with \<open>k < length ?docs\<close> nd show False by (metis nth_mem image_eqI set_map)
    qed
    with hit(1) s1 have k: "k = length ?docs" by simp
    have "userDocuments s2 u = ?docs" unfolding hit(4) by (simp add: s1 k)
    with nd s1 show ?thesis by (simp add: getDocuments_def getDocumentCount_def)
  qed
  have later: "h \<notin> set (fst (getDocuments s2 u)) \<and>
            getDocumentCount s2 u + 1 = getDocumentCount (run cs' s1) u \<and>
            set (fst (getDocuments s2 u)) = set (fst (getDocuments (run cs' s1) u)) - {h}"
    if a: "s = run cs init_state \<and>
            h \<in> set (fst (getDocuments (run cs' s1) u)) \<and>
            revokeDocument b u h (run cs' s1) = Inr s2" for cs cs' b s2
  proof -
    from a have "docs_unique s" using reachable_docs_unique [of cs] by simp
    then have "docs_unique s1" using assms by (rule storeDocument_docs_unique)
    then have du: "docs_unique (run cs' s1)" by (rule run_docs_unique)
    from a have mem: "h \<in> set (map sha256Hash (userDocuments (run cs' s1) u))"
      and r: "revokeDocument b u h (run cs' s1) = Inr s2"
      by (simp_all add: getDocuments_def)
    from revokeDocument_present [OF du mem r] show ?thesis
      by (simp add: getDocuments_def getDocumentCount_def)
  qed
  from pair rev later show ?thesis by blast
qed

theorem store_revoke_roundtrip_witness:
  "storeDocument 10 42 7 ''cidA'' state_A = Inr state_B \<and>
   revokeDocument 20 42 7 state_B = Inr state_C \<and>
   (\<exists>i<length (fst (getDocuments state_B 42)).
      fst (getDocuments state_B 42) ! i = 7 \<and> snd (getDocuments state_B 42) ! i = ''cidA'') \<and>
   7 \<notin> set (fst (getDocuments state_C 42)) \<and>
   getDocumentCount state_C 42 + 1 = getDocumentCount state_B 42 \<and>
   state_A = run [Initialize 1 1 2 3, AddAuthorizedIssuer 1 10, AddAuthorizedRevoker 2 20] init_state \<and>
   getDocuments (run [StoreDocument 10 42 8 ''cidB''] state_B) 42 = ([7, 8], [''cidA'', ''cidB'']) \<and>
   7 \<in> set (fst (getDocuments (run [StoreDocument 10 42 8 ''cidB''] state_B) 42)) \<and>
   revokeDocument 20 42 7 (run [StoreDocument 10 42 8 ''cidB''] state_B) =
     Inr (transact (RevokeDocument 20 42 7) (run [StoreDocument 10 42 8 ''cidB''] state_B)) \<and>
   7 \<notin> set (fst (getDocuments
     (transact (RevokeDocument 20 42 7) (run [StoreDocument 10 42 8 ''cidB''] state_B)) 42)) \<and>
   getDocumentCount
     (transact (RevokeDocument 20 42 7) (run [StoreDocument 10 42 8 ''cidB''] state_B)) 42 + 1 =
     getDocumentCount (run [StoreDocument 10 42 8 ''cidB''] state_B) 42 \<and>
   set (fst (getDocuments
     (transact (RevokeDocument 20 42 7) (run [StoreDocument 10 42 8 ''cidB''] state_B)) 42)) =
     set (fst (getDocuments (run [StoreDocument 10 42 8 ''cidB''] state_B) 42)) - {7}"
proof -
  let ?t = "run [StoreDocument 10 42 8 ''cidB''] state_B"
  note T = store_revoke_roundtrip [OF state_A_store]
  have mem: "7 \<in> set (fst (getDocuments ?t 42))" unfolding state_B_later(1) by simp
  from T state_B_revoke have 1: "(\<exists>i<length (fst (getDocuments state_B 42)).
      fst (getDocuments state_B 42) ! i = 7 \<and> snd (getDocuments state_B 42) ! i = ''cidA'') \<and>
   7 \<notin> set (fst (getDocuments state_C 42)) \<and>
   getDocumentCount state_C 42 + 1 = getDocumentCount state_B 42" by blast
  from T state_A_def mem state_B_later(2)
  have 2: "7 \<notin> set (fst (getDocuments (transact (RevokeDocument 20 42 7) ?t) 42)) \<and>
    getDocumentCount (transact (RevokeDocument 20 42 7) ?t) 42 + 1 = getDocumentCount ?t 42 \<and>
    set (fst (getDocuments (transact (RevokeDocument 20 42 7) ?t) 42)) =
      set (fst (getDocuments ?t 42)) - {7}" by blast
  from 1 2 state_A_store state_B_revoke state_A_def mem state_B_later(1,2) show ?thesis by blast
qed

subsection \<open>C3\<close>

text \<open>
  C3. In a state between calls (the busy flag is clear, as it is in every reachable state
  by \<open>reachable_not_busy\<close>), if the subject's collection holds
  a record with the hash, a store of that hash by any authorized caller with any reference
  fails with DuplicateDocument, and the transaction leaves the whole state, collections
  and event log included, as it was.
\<close>

theorem store_duplicate_rejected:
  assumes "\<not> busy s" and "isIssuer s a \<or> isOwner s a"
    and "h \<in> set (map sha256Hash (userDocuments s u))"
  shows "storeDocument a u h c s = Inl DuplicateDocument \<and>
         transact (StoreDocument a u h c) s = s"
  using storeDocument_duplicate [OF assms] by (simp add: transact_def)

theorem store_duplicate_rejected_witness:
  "\<not> busy state_B \<and> (isIssuer state_B 10 \<or> isOwner state_B 10) \<and>
   7 \<in> set (map sha256Hash (userDocuments state_B 42)) \<and>
   storeDocument 10 42 7 ''cidB'' state_B = Inl DuplicateDocument \<and>
   transact (StoreDocument 10 42 7 ''cidB'') state_B = state_B"
proof -
  have h1: "\<not> busy state_B" by (simp add: state_B_fields)
  have h2: "isIssuer state_B 10 \<or> isOwner state_B 10" by (simp add: isIssuer_def state_B_fields)
  have h3: "7 \<in> set (map sha256Hash (userDocuments state_B 42))" by (simp add: state_B_fields)
  from store_duplicate_rejected [OF h1 h2 h3, of "''cidB''"] h1 h2 h3 show ?thesis by blast
qed

subsection \<open>C4\<close>

text \<open>
  C4. In every reachable state and for a caller that is an owner: removing an address that
  is in the issuer list succeeds and is the swap-remove that the specification words
  (\<open>spec_swap_remove\<close>); afterwards the list, as a set, is the former set without the
  address, every remaining member is still an issuer and the removed address is not;
  removing an absent address fails with NotAuthorized. The same holds for the revokers.
\<close>

theorem remove_swap_remove:
  assumes "s = run cs init_state" and "isOwner s sender"
  shows "(addr \<in> set (issuerList s) \<longrightarrow>
            (\<exists>s'. removeAuthorizedIssuer sender addr s = Inr s' \<and>
               spec_swap_remove (issuerIndex s) (issuerList s) addr (issuerIndex s') (issuerList s') \<and>
               set (issuerList s') = set (issuerList s) - {addr} \<and>
               (\<forall>m\<in>set (issuerList s'). isIssuer s' m) \<and> \<not> isIssuer s' addr)) \<and>
         (addr \<notin> set (issuerList s) \<longrightarrow> removeAuthorizedIssuer sender addr s = Inl NotAuthorized) \<and>
         (addr \<in> set (revokerList s) \<longrightarrow>
            (\<exists>s'. removeAuthorizedRevoker sender addr s = Inr s' \<and>
               spec_swap_remove (revokerIndex s) (revokerList s) addr (revokerIndex s') (revokerList s') \<and>
               set (revokerList s') = set (revokerList s) - {addr} \<and>
               (\<forall>m\<in>set (revokerList s'). isRevoker s' m) \<and> \<not> isRevoker s' addr)) \<and>
         (addr \<notin> set (revokerList s) \<longrightarrow> removeAuthorizedRevoker sender addr s = Inl NotAuthorized)"
proof -
  have i: "auth_consistent (issuerIndex s) (issuerList s)"
    unfolding assms(1) by (rule reachable_issuer_consistent)
  have r: "auth_consistent (revokerIndex s) (revokerList s)"
    unfolding assms(1) by (rule reachable_revoker_consistent)
  have 1: "\<exists>s'. removeAuthorizedIssuer sender addr s = Inr s' \<and>
               spec_swap_remove (issuerIndex s) (issuerList s) addr (issuerIndex s') (issuerList s') \<and>
               set (issuerList s') = set (issuerList s) - {addr} \<and>
               (\<forall>m\<in>set (issuerList s'). isIssuer s' m) \<and> \<not> isIssuer s' addr"
    if "addr \<in> set (issuerList s)"
  proof -
    from that auth_consistent_mem [OF i, of addr] have pos: "issuerIndex s addr > 0" by simp
    from removeAuthorizedIssuer_consistent [OF i assms(2) pos] removed_spec [OF i pos]
    show ?thesis by (simp add: isIssuer_def)
  qed
  have 2: "removeAuthorizedIssuer sender addr s = Inl NotAuthorized"
    if "addr \<notin> set (issuerList s)"
  proof -
    from that auth_consistent_mem [OF i, of addr] have "issuerIndex s addr = 0" by simp
    with assms(2) show ?thesis by (simp add: removeAuthorizedIssuer_def onlyOwners_def)
  qed
  have 3: "\<exists>s'. removeAuthorizedRevoker sender addr s = Inr s' \<and>
               spec_swap_remove (revokerIndex s) (revokerList s) addr (revokerIndex s') (revokerList s') \<and>
               set (revokerList s') = set (revokerList s) - {addr} \<and>
               (\<forall>m\<in>set (revokerList s'). isRevoker s' m) \<and> \<not> isRevoker s' addr"
    if "addr \<in> set (revokerList s)"
  proof -
    from that auth_consistent_mem [OF r, of addr] have pos: "revokerIndex s addr > 0" by simp
    from removeAuthorizedRevoker_consistent [OF r assms(2) pos] removed_spec [OF r pos]
    show ?thesis by (simp add: isRevoker_def)
  qed
  have 4: "removeAuthorizedRevoker sender addr s = Inl NotAuthorized"
    if "addr \<notin> set (revokerList s)"
  proof -
    from that auth_consistent_mem [OF r, of addr] have "revokerIndex s addr = 0" by simp
    with assms(2) show ?thesis by (simp add: removeAuthorizedRevoker_def onlyOwners_def)
  qed
  from 1 2 3 4 show ?thesis by blast
qed

theorem remove_swap_remove_witness:
  "state_D = run [Initialize 1 1 2 3, AddAuthorizedIssuer 1 10, AddAuthorizedIssuer 1 11,
     AddAuthorizedIssuer 1 12, AddAuthorizedRevoker 1 20, AddAuthorizedRevoker 1 21] init_state \<and>
   isOwner state_D 1 \<and>
   10 \<in> set (issuerList state_D) \<and>
   (\<exists>s'. removeAuthorizedIssuer 1 10 state_D = Inr s' \<and>
      spec_swap_remove (issuerIndex state_D) (issuerList state_D) 10 (issuerIndex s') (issuerList s') \<and>
      set (issuerList s') = set (issuerList state_D) - {10} \<and>
      (\<forall>m\<in>set (issuerList s'). isIssuer s' m) \<and> \<not> isIssuer s' 10) \<and>
   99 \<notin> set (issuerList state_D) \<and>
   removeAuthorizedIssuer 1 99 state_D = Inl NotAuthorized \<and>
   20 \<in> set (revokerList state_D) \<and>
   (\<exists>s'. removeAuthorizedRevoker 1 20 state_D = Inr s' \<and>
      spec_swap_remove (revokerIndex state_D) (revokerList state_D) 20 (revokerIndex s') (revokerList s') \<and>
      set (revokerList s') = set (revokerList state_D) - {20} \<and>
      (\<forall>m\<in>set (revokerList s'). isRevoker s' m) \<and> \<not> isRevoker s' 20) \<and>
   99 \<notin> set (revokerList state_D) \<and>
   removeAuthorizedRevoker 1 99 state_D = Inl NotAuthorized"
proof -
  have o: "isOwner state_D 1" by (simp add: isOwner_def state_D_fields)
  have m: "10 \<in> set (issuerList state_D)" "99 \<notin> set (issuerList state_D)"
    "20 \<in> set (revokerList state_D)" "99 \<notin> set (revokerList state_D)"
    by (simp_all add: state_D_fields)
  note T1 = remove_swap_remove [OF state_D_def o, of 10]
  note T2 = remove_swap_remove [OF state_D_def o, of 99]
  note T3 = remove_swap_remove [OF state_D_def o, of 20]
  from T1 m(1) have "\<exists>s'. removeAuthorizedIssuer 1 10 state_D = Inr s' \<and>
      spec_swap_remove (issuerIndex state_D) (issuerList state_D) 10 (issuerIndex s') (issuerList s') \<and>
      set (issuerList s') = set (issuerList state_D) - {10} \<and>
      (\<forall>m\<in>set (issuerList s'). isIssuer s' m) \<and> \<not> isIssuer s' 10" by blast
  moreover from T2 m(2,4) have "removeAuthorizedIssuer 1 99 state_D = Inl NotAuthorized"
    and "removeAuthorizedRevoker 1 99 state_D = Inl NotAuthorized" by blast+
  moreover from T3 m(3) have "\<exists>s'. removeAuthorizedRevoker 1 20 state_D = Inr s' \<and>
      spec_swap_remove (revokerIndex state_D) (revokerList state_D) 20 (revokerIndex s') (revokerList s') \<and>
      set (revokerList s') = set (revokerList state_D) - {20} \<and>
      (\<forall>m\<in>set (revokerList s'). isRevoker s' m) \<and> \<not> isRevoker s' 20" by blast
  ultimately show ?thesis using state_D_def o m by blast
qed

subsection \<open>C5\<close>

text \<open>
  C5. In every reachable state, for both authorization lists and every address: the
  address occurs in the list if and only if its index entry is nonzero, and the index
  entry of a member names, in 1-based form, the slot that holds the member. Every
  transaction, so each add and each remove, preserves the consistency of an index mapping
  with its list (\<open>auth_consistent\<close>, which gives this correspondence), from any state.
\<close>

theorem index_list_correspondence:
  assumes "s = run cs init_state"
  shows "(a \<in> set (issuerList s) \<longleftrightarrow> issuerIndex s a \<noteq> 0) \<and>
         (a \<in> set (issuerList s) \<longrightarrow>
            1 \<le> issuerIndex s a \<and> issuerIndex s a \<le> length (issuerList s) \<and>
            issuerList s ! (issuerIndex s a - 1) = a) \<and>
         (a \<in> set (revokerList s) \<longleftrightarrow> revokerIndex s a \<noteq> 0) \<and>
         (a \<in> set (revokerList s) \<longrightarrow>
            1 \<le> revokerIndex s a \<and> revokerIndex s a \<le> length (revokerList s) \<and>
            revokerList s ! (revokerIndex s a - 1) = a) \<and>
         (auth_consistent (issuerIndex t) (issuerList t) \<longrightarrow>
            auth_consistent (issuerIndex (transact c t)) (issuerList (transact c t))) \<and>
         (auth_consistent (revokerIndex t) (revokerList t) \<longrightarrow>
            auth_consistent (revokerIndex (transact c t)) (revokerList (transact c t)))"
proof -
  have i: "auth_consistent (issuerIndex s) (issuerList s)"
    unfolding assms by (rule reachable_issuer_consistent)
  have r: "auth_consistent (revokerIndex s) (revokerList s)"
    unfolding assms by (rule reachable_revoker_consistent)
  show ?thesis
    using auth_consistent_mem [OF i, of a] auth_consistent_slot [OF i, of a]
      auth_consistent_mem [OF r, of a] auth_consistent_slot [OF r, of a]
      transact_issuer_consistent [of t c] transact_revoker_consistent [of t c]
    by blast
qed

theorem index_list_correspondence_witness:
  "state_A = run [Initialize 1 1 2 3, AddAuthorizedIssuer 1 10, AddAuthorizedRevoker 2 20] init_state \<and>
   10 \<in> set (issuerList state_A) \<and> issuerIndex state_A 10 \<noteq> 0 \<and>
   1 \<le> issuerIndex state_A 10 \<and> issuerIndex state_A 10 \<le> length (issuerList state_A) \<and>
   issuerList state_A ! (issuerIndex state_A 10 - 1) = 10 \<and>
   20 \<in> set (revokerList state_A) \<and> revokerIndex state_A 20 \<noteq> 0 \<and>
   1 \<le> revokerIndex state_A 20 \<and> revokerIndex state_A 20 \<le> length (revokerList state_A) \<and>
   revokerList state_A ! (revokerIndex state_A 20 - 1) = 20 \<and>
   auth_consistent (issuerIndex state_D) (issuerList state_D) \<and>
   auth_consistent (issuerIndex (transact (RemoveAuthorizedIssuer 1 10) state_D))
     (issuerList (transact (RemoveAuthorizedIssuer 1 10) state_D)) \<and>
   auth_consistent (revokerIndex state_D) (revokerList state_D) \<and>
   auth_consistent (revokerIndex (transact (RemoveAuthorizedRevoker 1 20) state_D))
     (revokerList (transact (RemoveAuthorizedRevoker 1 20) state_D))"
proof -
  have mi: "10 \<in> set (issuerList state_A)" and mr: "20 \<in> set (revokerList state_A)"
    by (simp_all add: state_A_fields)
  have c0: "auth_consistent (issuerIndex state_D) (issuerList state_D)"
    unfolding state_D_def by (rule reachable_issuer_consistent)
  have c1: "auth_consistent (revokerIndex state_D) (revokerList state_D)"
    unfolding state_D_def by (rule reachable_revoker_consistent)
  note T1 = index_list_correspondence [OF state_A_def, of 10 state_D "RemoveAuthorizedIssuer 1 10"]
  note T2 = index_list_correspondence [OF state_A_def, of 20 state_D "RemoveAuthorizedRevoker 1 20"]
  from T1 mi c0 have "issuerIndex state_A 10 \<noteq> 0 \<and>
     1 \<le> issuerIndex state_A 10 \<and> issuerIndex state_A 10 \<le> length (issuerList state_A) \<and>
     issuerList state_A ! (issuerIndex state_A 10 - 1) = 10 \<and>
     auth_consistent (issuerIndex (transact (RemoveAuthorizedIssuer 1 10) state_D))
       (issuerList (transact (RemoveAuthorizedIssuer 1 10) state_D))" by blast
  moreover from T2 mr c1 have "revokerIndex state_A 20 \<noteq> 0 \<and>
     1 \<le> revokerIndex state_A 20 \<and> revokerIndex state_A 20 \<le> length (revokerList state_A) \<and>
     revokerList state_A ! (revokerIndex state_A 20 - 1) = 20 \<and>
     auth_consistent (revokerIndex (transact (RemoveAuthorizedRevoker 1 20) state_D))
       (revokerList (transact (RemoveAuthorizedRevoker 1 20) state_D))" by blast
  ultimately show ?thesis using state_A_def mi mr c0 c1 by blast
qed

subsection \<open>C6\<close>

text \<open>
  C6. In a state between calls (the busy flag is clear), a store by a caller that is neither an owner nor an issuer
  fails with Unauthorized, and a revoke by a caller that is neither an owner nor a revoker
  fails with Unauthorized, whatever the hash, present or absent; either transaction leaves
  the whole state as it was.
\<close>

theorem unauthorized_rejected:
  assumes "\<not> busy s"
  shows "(\<not> (isOwner s a \<or> isIssuer s a) \<longrightarrow>
            storeDocument a u h c s = Inl Unauthorized \<and>
            transact (StoreDocument a u h c) s = s) \<and>
         (\<not> (isOwner s a \<or> isRevoker s a) \<longrightarrow>
            revokeDocument a u h s = Inl Unauthorized \<and>
            transact (RevokeDocument a u h) s = s)"
  using assms storeDocument_unauth [of s a u h c] revokeDocument_unauth [of s a u h]
  by (auto simp: transact_def)

theorem unauthorized_rejected_witness:
  "\<not> busy state_A \<and> \<not> (isOwner state_A 99 \<or> isIssuer state_A 99) \<and>
   \<not> (isOwner state_A 99 \<or> isRevoker state_A 99) \<and>
   storeDocument 99 42 8 ''cidB'' state_A = Inl Unauthorized \<and>
   transact (StoreDocument 99 42 8 ''cidB'') state_A = state_A \<and>
   revokeDocument 99 42 8 state_A = Inl Unauthorized \<and>
   transact (RevokeDocument 99 42 8) state_A = state_A"
proof -
  have h1: "\<not> busy state_A" by (simp add: state_A_fields)
  have h2: "\<not> (isOwner state_A 99 \<or> isIssuer state_A 99)"
    by (simp add: isOwner_def isIssuer_def state_A_fields)
  have h3: "\<not> (isOwner state_A 99 \<or> isRevoker state_A 99)"
    by (simp add: isOwner_def isRevoker_def state_A_fields)
  from unauthorized_rejected [OF h1, of 99 42 8 "''cidB''"] h1 h2 h3 show ?thesis by blast
qed

subsection \<open>C7\<close>

text \<open>
  C7. In a state between calls (the busy flag is clear) and for an authorized caller: when no record of the subject
  has the hash, revoke succeeds and returns the state unchanged (same collections, same
  event log); when a record matches, revoke succeeds, appends one Revoked event carrying
  the hash and the reference of the matched record, and the collection loses exactly that
  record, so it is shorter by one.
\<close>

theorem revoke_miss_and_hit:
  assumes "\<not> busy s" and "isRevoker s a \<or> isOwner s a"
  shows "(h \<notin> set (map sha256Hash (userDocuments s u)) \<longrightarrow>
            revokeDocument a u h s = Inr s \<and> transact (RevokeDocument a u h) s = s) \<and>
         (h \<in> set (map sha256Hash (userDocuments s u)) \<longrightarrow>
            (\<exists>k s'. k < length (userDocuments s u) \<and>
               sha256Hash (userDocuments s u ! k) = h \<and>
               revokeDocument a u h s = Inr s' \<and>
               events s' = events s @ [DocumentRevoked u h (ipfsCID (userDocuments s u ! k))] \<and>
               mset (userDocuments s' u) = mset (userDocuments s u) - {#userDocuments s u ! k#} \<and>
               length (userDocuments s' u) + 1 = length (userDocuments s u)))"
proof (rule conjI; rule impI)
  assume "h \<notin> set (map sha256Hash (userDocuments s u))"
  from revokeDocument_miss [OF assms this]
  show "revokeDocument a u h s = Inr s \<and> transact (RevokeDocument a u h) s = s"
    by (simp add: transact_def)
next
  assume "h \<in> set (map sha256Hash (userDocuments s u))"
  from first_match [OF this] obtain k where k: "k < length (userDocuments s u)"
    "sha256Hash (userDocuments s u ! k) = h" "\<forall>j<k. sha256Hash (userDocuments s u ! j) \<noteq> h"
    by blast
  let ?s' = "s\<lparr> userDocuments := (userDocuments s)
                (u := butlast ((userDocuments s u)[k := userDocuments s u ! (length (userDocuments s u) - 1)])),
              events := events s @ [DocumentRevoked u h (ipfsCID (userDocuments s u ! k))] \<rparr>"
  have "revokeDocument a u h s = Inr ?s'" by (rule revokeDocument_hit [OF assms k])
  moreover have "mset (userDocuments ?s' u) = mset (userDocuments s u) - {#userDocuments s u ! k#}"
    using swap_remove_mset [OF k(1)] by simp
  moreover have "length (userDocuments ?s' u) + 1 = length (userDocuments s u)"
    using k(1) by simp
  moreover have "events ?s' = events s @ [DocumentRevoked u h (ipfsCID (userDocuments s u ! k))]"
    by simp
  ultimately show "\<exists>k s'. k < length (userDocuments s u) \<and>
               sha256Hash (userDocuments s u ! k) = h \<and>
               revokeDocument a u h s = Inr s' \<and>
               events s' = events s @ [DocumentRevoked u h (ipfsCID (userDocuments s u ! k))] \<and>
               mset (userDocuments s' u) = mset (userDocuments s u) - {#userDocuments s u ! k#} \<and>
               length (userDocuments s' u) + 1 = length (userDocuments s u)"
    using k(1,2) by blast
qed

theorem revoke_miss_and_hit_witness:
  "\<not> busy state_A \<and> (isRevoker state_A 20 \<or> isOwner state_A 20) \<and>
   7 \<notin> set (map sha256Hash (userDocuments state_A 42)) \<and>
   revokeDocument 20 42 7 state_A = Inr state_A \<and>
   \<not> busy state_B \<and> (isRevoker state_B 20 \<or> isOwner state_B 20) \<and>
   7 \<in> set (map sha256Hash (userDocuments state_B 42)) \<and>
   (\<exists>k s'. k < length (userDocuments state_B 42) \<and>
      sha256Hash (userDocuments state_B 42 ! k) = 7 \<and>
      revokeDocument 20 42 7 state_B = Inr s' \<and>
      events s' = events state_B @ [DocumentRevoked 42 7 (ipfsCID (userDocuments state_B 42 ! k))] \<and>
      mset (userDocuments s' 42) = mset (userDocuments state_B 42) - {#userDocuments state_B 42 ! k#} \<and>
      length (userDocuments s' 42) + 1 = length (userDocuments state_B 42))"
proof -
  have a1: "\<not> busy state_A" by (simp add: state_A_fields)
  have a2: "isRevoker state_A 20 \<or> isOwner state_A 20" by (simp add: isRevoker_def state_A_fields)
  have a3: "7 \<notin> set (map sha256Hash (userDocuments state_A 42))" by (simp add: state_A_fields)
  have b1: "\<not> busy state_B" by (simp add: state_B_fields)
  have b2: "isRevoker state_B 20 \<or> isOwner state_B 20" by (simp add: isRevoker_def state_B_fields)
  have b3: "7 \<in> set (map sha256Hash (userDocuments state_B 42))" by (simp add: state_B_fields)
  from revoke_miss_and_hit [OF a1 a2, of 7 42] a3
  have "revokeDocument 20 42 7 state_A = Inr state_A" by blast
  moreover from revoke_miss_and_hit [OF b1 b2, of 7 42] b3
  have "\<exists>k s'. k < length (userDocuments state_B 42) \<and>
      sha256Hash (userDocuments state_B 42 ! k) = 7 \<and>
      revokeDocument 20 42 7 state_B = Inr s' \<and>
      events s' = events state_B @ [DocumentRevoked 42 7 (ipfsCID (userDocuments state_B 42 ! k))] \<and>
      mset (userDocuments s' 42) = mset (userDocuments state_B 42) - {#userDocuments state_B 42 ! k#} \<and>
      length (userDocuments s' 42) + 1 = length (userDocuments state_B 42)" by blast
  ultimately show ?thesis using a1 a2 a3 b1 b2 b3 by blast
qed

subsection \<open>C8\<close>

text \<open>
  C8, as amended. A successful \<open>initialize\<close> sets the three owner slots to the caller and
  the two supplied addresses, in this order, and these are exactly the addresses that pass
  the owner test; nothing requires them to be distinct. Once the contract is initialized,
  \<open>initialize\<close> fails with AlreadyInitialized, and no sequence of calls changes the owner
  slots.
\<close>

theorem owners_fixed:
  "(initialize sender origin owner2 owner3 s = Inr s' \<longrightarrow>
      initialized s' \<and> owner_list s' = [sender, owner2, owner3] \<and>
      (\<forall>x. isOwner s' x \<longleftrightarrow> x \<in> set [sender, owner2, owner3])) \<and>
   (initialized s \<longrightarrow> initialize sender origin owner2 owner3 s = Inl AlreadyInitialized) \<and>
   (initialized s \<longrightarrow> initialized (run cs s) \<and> owners (run cs s) = owners s)"
proof (intro conjI impI)
  assume "initialize sender origin owner2 owner3 s = Inr s'"
  then have "s' = s\<lparr>initialized := True, owners := (sender, owner2, owner3)\<rparr>"
    by (simp add: initialize_Inr)
  then show "initialized s'" and "owner_list s' = [sender, owner2, owner3]"
    and "\<forall>x. isOwner s' x \<longleftrightarrow> x \<in> set [sender, owner2, owner3]"
    by (auto simp: owner_list_def isOwner_def)
next
  assume "initialized s"
  then show "initialize sender origin owner2 owner3 s = Inl AlreadyInitialized"
    by (simp add: initialize_def initializer_def)
next
  assume "initialized s"
  then show "initialized (run cs s)" and "owners (run cs s) = owners s"
    using run_owners [of s cs] by simp_all
qed

theorem owners_fixed_witness:
  "initialize 1 1 2 3 init_state = Inr (transact (Initialize 1 1 2 3) init_state) \<and>
   initialized (transact (Initialize 1 1 2 3) init_state) \<and>
   owner_list (transact (Initialize 1 1 2 3) init_state) = [1, 2, 3] \<and>
   isOwner (transact (Initialize 1 1 2 3) init_state) 2 \<and>
   initialized state_A \<and>
   initialize 5 5 6 7 state_A = Inl AlreadyInitialized \<and>
   initialized (run [Initialize 5 5 6 7, StoreDocument 10 42 7 ''cidA''] state_A) \<and>
   owners (run [Initialize 5 5 6 7, StoreDocument 10 42 7 ''cidA''] state_A) = owners state_A"
proof -
  have i: "initialize 1 1 2 3 init_state = Inr (transact (Initialize 1 1 2 3) init_state)"
    using committedI [of "Initialize 1 1 2 3" init_state] by (simp add: eval_simps)
  note T1 = owners_fixed [of 1 1 2 3 init_state "transact (Initialize 1 1 2 3) init_state"]
  note T2 = owners_fixed [of 5 5 6 7 state_A _ "[Initialize 5 5 6 7, StoreDocument 10 42 7 ''cidA'']"]
  from T1 i have "initialized (transact (Initialize 1 1 2 3) init_state)"
    and "owner_list (transact (Initialize 1 1 2 3) init_state) = [1, 2, 3]"
    and "isOwner (transact (Initialize 1 1 2 3) init_state) 2"
    by simp_all
  moreover from T2 state_A_initialized
  have "initialize 5 5 6 7 state_A = Inl AlreadyInitialized"
    and "initialized (run [Initialize 5 5 6 7, StoreDocument 10 42 7 ''cidA''] state_A)"
    and "owners (run [Initialize 5 5 6 7, StoreDocument 10 42 7 ''cidA''] state_A) = owners state_A"
    by blast+
  ultimately show ?thesis using i state_A_initialized by blast
qed

text \<open>
  C8 as stated fails: \<open>initialize\<close> accepts the caller's own address for both supplied
  owners, and the owner set then holds one address in its three slots.
\<close>

theorem owners_not_distinct_counterexample:
  "initialize 1 1 1 1 init_state = Inr (transact (Initialize 1 1 1 1) init_state) \<and>
   initialized (transact (Initialize 1 1 1 1) init_state) \<and>
   owner_list (transact (Initialize 1 1 1 1) init_state) = [1, 1, 1] \<and>
   \<not> distinct (owner_list (transact (Initialize 1 1 1 1) init_state))"
  using committedI [of "Initialize 1 1 1 1" init_state]
  by (simp add: owner_list_def eval_simps)

subsection \<open>C9\<close>

text \<open>
  C9. Store and revoke share one busy flag. With the flag set, both are rejected with
  ReentrancyError, for any caller, subject and hash, and the transaction changes nothing.
  The flag is set on entry: a guarded call whose body calls store or revoke again, for any
  caller and subject, at its entry, after the statements of the store body or of the revoke
  body, or after any piece \<open>pre\<close> of a body that does not write the flag, is rejected with
  ReentrancyError where the same call without the nested call would have succeeded (and
  fails with the error of \<open>pre\<close> where that fails), so nothing of it is committed. The
  flag is cleared on exit: it is clear after every store or revoke transaction, committed
  or reverted, and a store or revoke that follows a successful one is not rejected by the
  guard.
\<close>

theorem reentrancy_guard:
  "(busy s \<longrightarrow>
      storeDocument a u h c s = Inl ReentrancyError \<and>
      revokeDocument a u h s = Inl ReentrancyError \<and>
      transact (StoreDocument a u h c) s = s \<and>
      transact (RevokeDocument a u h) s = s) \<and>
   (\<not> busy s \<longrightarrow>
      nonReentrant (storeDocument a' u' h' c') s = Inl ReentrancyError \<and>
      nonReentrant (revokeDocument a' u' h') s = Inl ReentrancyError \<and>
      \<not> busy (transact (StoreDocument a u h c) s) \<and>
      \<not> busy (transact (RevokeDocument a u h) s)) \<and>
   (storeDocument a u h c s = Inr s1 \<longrightarrow>
      nonReentrant (then_call (storeDocument_body a u h c) (storeDocument a' u' h' c')) s =
        Inl ReentrancyError \<and>
      nonReentrant (then_call (storeDocument_body a u h c) (revokeDocument a' u' h')) s =
        Inl ReentrancyError \<and>
      \<not> busy s1 \<and>
      storeDocument a' u' h' c' s1 \<noteq> Inl ReentrancyError \<and>
      revokeDocument a' u' h' s1 \<noteq> Inl ReentrancyError) \<and>
   (revokeDocument a u h s = Inr s1 \<longrightarrow>
      nonReentrant (then_call (revokeDocument_body a u h) (storeDocument a' u' h' c')) s =
        Inl ReentrancyError \<and>
      nonReentrant (then_call (revokeDocument_body a u h) (revokeDocument a' u' h')) s =
        Inl ReentrancyError \<and>
      \<not> busy s1 \<and>
      storeDocument a' u' h' c' s1 \<noteq> Inl ReentrancyError \<and>
      revokeDocument a' u' h' s1 \<noteq> Inl ReentrancyError) \<and>
   (\<not> busy s \<and> keeps_busy pre \<longrightarrow>
      (\<forall>t. nonReentrant pre s = Inr t \<longrightarrow>
         nonReentrant (then_call pre (storeDocument a' u' h' c')) s = Inl ReentrancyError \<and>
         nonReentrant (then_call pre (revokeDocument a' u' h')) s = Inl ReentrancyError \<and>
         \<not> busy t) \<and>
      (\<forall>e. nonReentrant pre s = Inl e \<longrightarrow>
         nonReentrant (then_call pre (storeDocument a' u' h' c')) s = Inl e \<and>
         nonReentrant (then_call pre (revokeDocument a' u' h')) s = Inl e)) \<and>
   keeps_busy (storeDocument_body a u h c) \<and> keeps_busy (revokeDocument_body a u h)"
proof -
  have S: "\<forall>t. busy t \<longrightarrow> storeDocument a' u' h' c' t = Inl ReentrancyError"
    by (simp add: storeDocument_busy)
  have R: "\<forall>t. busy t \<longrightarrow> revokeDocument a' u' h' t = Inl ReentrancyError"
    by (simp add: revokeDocument_busy)
  have 1: "storeDocument a u h c s = Inl ReentrancyError \<and>
      revokeDocument a u h s = Inl ReentrancyError \<and>
      transact (StoreDocument a u h c) s = s \<and>
      transact (RevokeDocument a u h) s = s" if "busy s"
    using storeDocument_busy [OF that, of a u h c] revokeDocument_busy [OF that, of a u h]
    by (simp add: transact_def)
  have 2: "nonReentrant (storeDocument a' u' h' c') s = Inl ReentrancyError \<and>
      nonReentrant (revokeDocument a' u' h') s = Inl ReentrancyError \<and>
      \<not> busy (transact (StoreDocument a u h c) s) \<and>
      \<not> busy (transact (RevokeDocument a u h) s)" if "\<not> busy s"
    using nested_at_entry [OF that S] nested_at_entry [OF that R] that
    by (simp add: transact_busy)
  have G: "(\<forall>t. nonReentrant pre s = Inr t \<longrightarrow>
         nonReentrant (then_call pre (storeDocument a' u' h' c')) s = Inl ReentrancyError \<and>
         nonReentrant (then_call pre (revokeDocument a' u' h')) s = Inl ReentrancyError \<and>
         \<not> busy t) \<and>
      (\<forall>e. nonReentrant pre s = Inl e \<longrightarrow>
         nonReentrant (then_call pre (storeDocument a' u' h' c')) s = Inl e \<and>
         nonReentrant (then_call pre (revokeDocument a' u' h')) s = Inl e)"
    if "\<not> busy s" "keeps_busy pre" for pre
    using nested_rejected [OF that S] nested_rejected [OF that R] nonReentrant_clears [of pre s]
    by blast
  have 3: "nonReentrant (then_call (storeDocument_body a u h c) (storeDocument a' u' h' c')) s =
        Inl ReentrancyError \<and>
      nonReentrant (then_call (storeDocument_body a u h c) (revokeDocument a' u' h')) s =
        Inl ReentrancyError \<and>
      \<not> busy s1 \<and>
      storeDocument a' u' h' c' s1 \<noteq> Inl ReentrancyError \<and>
      revokeDocument a' u' h' s1 \<noteq> Inl ReentrancyError" if st: "storeDocument a u h c s = Inr s1"
  proof -
    from st have n: "nonReentrant (storeDocument_body a u h c) s = Inr s1"
      by (simp add: storeDocument_def)
    from nonReentrant_clears [OF n] have nb: "\<not> busy s" "\<not> busy s1" by simp_all
    from G [OF nb(1) keeps_busy_bodies(1)] n nb(2)
      storeDocument_not_reentrancy [OF nb(2)] revokeDocument_not_reentrancy [OF nb(2)]
    show ?thesis by blast
  qed
  have 4: "nonReentrant (then_call (revokeDocument_body a u h) (storeDocument a' u' h' c')) s =
        Inl ReentrancyError \<and>
      nonReentrant (then_call (revokeDocument_body a u h) (revokeDocument a' u' h')) s =
        Inl ReentrancyError \<and>
      \<not> busy s1 \<and>
      storeDocument a' u' h' c' s1 \<noteq> Inl ReentrancyError \<and>
      revokeDocument a' u' h' s1 \<noteq> Inl ReentrancyError" if st: "revokeDocument a u h s = Inr s1"
  proof -
    from st have n: "nonReentrant (revokeDocument_body a u h) s = Inr s1"
      by (simp add: revokeDocument_def)
    from nonReentrant_clears [OF n] have nb: "\<not> busy s" "\<not> busy s1" by simp_all
    from G [OF nb(1) keeps_busy_bodies(2)] n nb(2)
      storeDocument_not_reentrancy [OF nb(2)] revokeDocument_not_reentrancy [OF nb(2)]
    show ?thesis by blast
  qed
  from 1 2 3 4 G [of pre] keeps_busy_bodies(1) [of a u h c] keeps_busy_bodies(2) [of a u h]
  show ?thesis by blast
qed

theorem reentrancy_guard_witness:
  "busy (state_A\<lparr>busy := True\<rparr>) \<and>
   storeDocument 10 42 7 ''cidA'' (state_A\<lparr>busy := True\<rparr>) = Inl ReentrancyError \<and>
   revokeDocument 10 42 7 (state_A\<lparr>busy := True\<rparr>) = Inl ReentrancyError \<and>
   \<not> busy state_A \<and>
   nonReentrant (storeDocument 1 43 8 ''cidB'') state_A = Inl ReentrancyError \<and>
   nonReentrant (revokeDocument 1 43 8) state_A = Inl ReentrancyError \<and>
   \<not> busy (transact (StoreDocument 10 42 7 ''cidA'') state_A) \<and>
   \<not> busy (transact (RevokeDocument 10 42 7) state_A) \<and>
   storeDocument 10 42 7 ''cidA'' state_A = Inr state_B \<and>
   nonReentrant (then_call (storeDocument_body 10 42 7 ''cidA'') (storeDocument 1 43 8 ''cidB'')) state_A =
     Inl ReentrancyError \<and>
   nonReentrant (then_call (storeDocument_body 10 42 7 ''cidA'') (revokeDocument 1 43 8)) state_A =
     Inl ReentrancyError \<and>
   \<not> busy state_B \<and>
   storeDocument 1 43 8 ''cidB'' state_B \<noteq> Inl ReentrancyError \<and>
   revokeDocument 20 42 7 state_B = Inr state_C \<and>
   nonReentrant (then_call (revokeDocument_body 20 42 7) (storeDocument 1 43 8 ''cidB'')) state_B =
     Inl ReentrancyError \<and>
   nonReentrant (then_call (revokeDocument_body 20 42 7) (revokeDocument 1 43 8)) state_B =
     Inl ReentrancyError \<and>
   \<not> busy state_C \<and>
   keeps_busy (storeDocument_body 10 42 7 ''cidA'') \<and>
   keeps_busy (storeDocument_body 99 42 7 ''cidA'') \<and>
   nonReentrant (storeDocument_body 99 42 7 ''cidA'') state_A = Inl Unauthorized \<and>
   nonReentrant (then_call (storeDocument_body 99 42 7 ''cidA'') (storeDocument 1 43 8 ''cidB'')) state_A =
     Inl Unauthorized \<and>
   nonReentrant (storeDocument_body 10 42 7 ''cidA'') state_A = Inr state_B \<and>
   nonReentrant (then_call (storeDocument_body 10 42 7 ''cidA'') (revokeDocument 2 44 9)) state_A =
     Inl ReentrancyError"
proof -
  have b: "busy (state_A\<lparr>busy := True\<rparr>)" by simp
  have nb: "\<not> busy state_A" by (simp add: state_A_fields)
  have un: "nonReentrant (storeDocument_body 99 42 7 ''cidA'') state_A = Inl Unauthorized"
    by (simp add: state_A_def eval_simps)
  note T1 = reentrancy_guard [of "state_A\<lparr>busy := True\<rparr>" 10 42 7 "''cidA''"]
  note T2 = reentrancy_guard [of state_A 10 42 7 "''cidA''" 1 43 8 "''cidB''" state_B]
  note T3 = reentrancy_guard [of state_B 20 42 7 _ 1 43 8 "''cidB''" state_C]
  note T4 = reentrancy_guard [of state_A 99 42 7 "''cidA''" 1 43 8 "''cidB''" _
      "storeDocument_body 99 42 7 ''cidA''"]
  from T1 b have 1: "storeDocument 10 42 7 ''cidA'' (state_A\<lparr>busy := True\<rparr>) = Inl ReentrancyError \<and>
    revokeDocument 10 42 7 (state_A\<lparr>busy := True\<rparr>) = Inl ReentrancyError" by blast
  from T2 nb have 2: "nonReentrant (storeDocument 1 43 8 ''cidB'') state_A = Inl ReentrancyError \<and>
    nonReentrant (revokeDocument 1 43 8) state_A = Inl ReentrancyError \<and>
    \<not> busy (transact (StoreDocument 10 42 7 ''cidA'') state_A) \<and>
    \<not> busy (transact (RevokeDocument 10 42 7) state_A)" by blast
  from T2 state_A_store
  have 3: "nonReentrant (then_call (storeDocument_body 10 42 7 ''cidA'') (storeDocument 1 43 8 ''cidB'')) state_A =
      Inl ReentrancyError \<and>
    nonReentrant (then_call (storeDocument_body 10 42 7 ''cidA'') (revokeDocument 1 43 8)) state_A =
      Inl ReentrancyError \<and>
    \<not> busy state_B \<and>
    storeDocument 1 43 8 ''cidB'' state_B \<noteq> Inl ReentrancyError \<and>
    keeps_busy (storeDocument_body 10 42 7 ''cidA'')" by blast
  from T3 state_B_revoke
  have 4: "nonReentrant (then_call (revokeDocument_body 20 42 7) (storeDocument 1 43 8 ''cidB'')) state_B =
      Inl ReentrancyError \<and>
    nonReentrant (then_call (revokeDocument_body 20 42 7) (revokeDocument 1 43 8)) state_B =
      Inl ReentrancyError \<and>
    \<not> busy state_C" by blast
  from T4 have k: "keeps_busy (storeDocument_body 99 42 7 ''cidA'')" by blast
  from T4 nb k un
  have 5: "nonReentrant (then_call (storeDocument_body 99 42 7 ''cidA'') (storeDocument 1 43 8 ''cidB'')) state_A =
     Inl Unauthorized" by blast
  have ok: "nonReentrant (storeDocument_body 10 42 7 ''cidA'') state_A = Inr state_B"
    using state_A_store by (simp add: storeDocument_def)
  note T5 = reentrancy_guard [of state_A 10 42 7 "''cidA''" 2 44 9 _ _
      "storeDocument_body 10 42 7 ''cidA''"]
  from T5 nb ok
  have 6: "nonReentrant (then_call (storeDocument_body 10 42 7 ''cidA'') (revokeDocument 2 44 9)) state_A =
     Inl ReentrancyError" by blast
  from b nb un 1 2 3 4 k 5 ok 6 state_A_store state_B_revoke show ?thesis by blast
qed

subsection \<open>C10\<close>

text \<open>
  C10. A successful store or revoke for a subject leaves the owner slots, both index
  mappings, both lists and every other subject's collection unchanged; a successful add or
  remove of an issuer leaves the owner slots, the revoker mapping and list and all
  collections unchanged; a successful add or remove of a revoker leaves the owner slots,
  the issuer mapping and list and all collections unchanged. The two flags are unchanged
  too.
\<close>

theorem operations_frame:
  "(storeDocument a u h c s = Inr s' \<longrightarrow> docs_frame u s s') \<and>
   (revokeDocument a u h s = Inr s' \<longrightarrow> docs_frame u s s') \<and>
   (addAuthorizedIssuer a x s = Inr s' \<longrightarrow> issuers_frame s s') \<and>
   (removeAuthorizedIssuer a x s = Inr s' \<longrightarrow> issuers_frame s s') \<and>
   (addAuthorizedRevoker a x s = Inr s' \<longrightarrow> revokers_frame s s') \<and>
   (removeAuthorizedRevoker a x s = Inr s' \<longrightarrow> revokers_frame s s')"
  unfolding docs_frame_def issuers_frame_def revokers_frame_def
  using storeDocument_frame [of a u h c s s'] revokeDocument_frame [of a u h s s']
    addAuthorizedIssuer_frame [of a x s s'] removeAuthorizedIssuer_frame [of a x s s']
    addAuthorizedRevoker_frame [of a x s s'] removeAuthorizedRevoker_frame [of a x s s']
  by blast

theorem operations_frame_witness:
  "storeDocument 10 42 7 ''cidA'' state_A = Inr state_B \<and> docs_frame 42 state_A state_B \<and>
   revokeDocument 20 42 7 state_B = Inr state_C \<and> docs_frame 42 state_B state_C \<and>
   addAuthorizedIssuer 1 11 state_A = Inr (transact (AddAuthorizedIssuer 1 11) state_A) \<and>
   issuers_frame state_A (transact (AddAuthorizedIssuer 1 11) state_A) \<and>
   removeAuthorizedIssuer 1 10 state_A = Inr (transact (RemoveAuthorizedIssuer 1 10) state_A) \<and>
   issuers_frame state_A (transact (RemoveAuthorizedIssuer 1 10) state_A) \<and>
   addAuthorizedRevoker 2 21 state_A = Inr (transact (AddAuthorizedRevoker 2 21) state_A) \<and>
   revokers_frame state_A (transact (AddAuthorizedRevoker 2 21) state_A) \<and>
   removeAuthorizedRevoker 3 20 state_A = Inr (transact (RemoveAuthorizedRevoker 3 20) state_A) \<and>
   revokers_frame state_A (transact (RemoveAuthorizedRevoker 3 20) state_A)"
proof -
  have ai: "addAuthorizedIssuer 1 11 state_A = Inr (transact (AddAuthorizedIssuer 1 11) state_A)"
    using committedI [of "AddAuthorizedIssuer 1 11" state_A] by (simp add: state_A_def eval_simps)
  have ri: "removeAuthorizedIssuer 1 10 state_A = Inr (transact (RemoveAuthorizedIssuer 1 10) state_A)"
    using committedI [of "RemoveAuthorizedIssuer 1 10" state_A] by (simp add: state_A_def eval_simps)
  have ar: "addAuthorizedRevoker 2 21 state_A = Inr (transact (AddAuthorizedRevoker 2 21) state_A)"
    using committedI [of "AddAuthorizedRevoker 2 21" state_A] by (simp add: state_A_def eval_simps)
  have rr: "removeAuthorizedRevoker 3 20 state_A = Inr (transact (RemoveAuthorizedRevoker 3 20) state_A)"
    using committedI [of "RemoveAuthorizedRevoker 3 20" state_A] by (simp add: state_A_def eval_simps)
  from operations_frame [of 10 42 7 "''cidA''" state_A state_B] state_A_store
  have 1: "docs_frame 42 state_A state_B" by blast
  from operations_frame [of 20 42 7 _ state_B state_C] state_B_revoke
  have 2: "docs_frame 42 state_B state_C" by blast
  from operations_frame [of 1 _ _ _ state_A "transact (AddAuthorizedIssuer 1 11) state_A" 11] ai
  have 3: "issuers_frame state_A (transact (AddAuthorizedIssuer 1 11) state_A)" by blast
  from operations_frame [of 1 _ _ _ state_A "transact (RemoveAuthorizedIssuer 1 10) state_A" 10] ri
  have 4: "issuers_frame state_A (transact (RemoveAuthorizedIssuer 1 10) state_A)" by blast
  from operations_frame [of 2 _ _ _ state_A "transact (AddAuthorizedRevoker 2 21) state_A" 21] ar
  have 5: "revokers_frame state_A (transact (AddAuthorizedRevoker 2 21) state_A)" by blast
  from operations_frame [of 3 _ _ _ state_A "transact (RemoveAuthorizedRevoker 3 20) state_A" 20] rr
  have 6: "revokers_frame state_A (transact (RemoveAuthorizedRevoker 3 20) state_A)" by blast
  from state_A_store state_B_revoke ai ri ar rr 1 2 3 4 5 6 show ?thesis by blast
qed

end
